theory Spec2Isabelle
  imports Complex_Main "HOL-Library.Log_Nat"
begin

section \<open>Rupee Loom: client-side aggregation over the loaded snapshots\<close>

text \<open>
  The development embeds the pieces of logic of the application that compute
  something: the budget progress of \<^verbatim>\<open>pages/Budgets.tsx\<close>, the monthly statistics of
  \<^verbatim>\<open>pages/Dashboard.tsx\<close>, the refresh of \<^verbatim>\<open>contexts/DataContext.tsx\<close> and the record
  built by the form of \<^verbatim>\<open>pages/QuickExpense.tsx\<close>.

  Conventions of the embedding.
  \<^item> A number of the language is a binary64 floating-point value, the type \<open>jsnum\<close>:
    every addition, subtraction, multiplication and division rounds to the nearest
    such value, ties to the even one. A monetary column is \<^verbatim>\<open>decimal(12,2)\<close>; a row holds
    the decimal value as a \<^typ>\<open>rat\<close>, and the number that the client reads from it is
    \<open>js_num\<close> of that value, the nearest binary64 value.
  \<^item> A date column reaches the client as a string and is only ever used through
    \<^verbatim>\<open>new Date(s)\<close>. A row of the model holds the \<^verbatim>\<open>Date\<close> object that this call builds:
    a time value in milliseconds since the epoch, or the invalid date.
  \<^item> The clock (\<^verbatim>\<open>new Date()\<close>, \<^verbatim>\<open>Date.now()\<close>) is the argument \<open>now\<close>. The time zone
    of the host is the argument \<open>z\<close>: the offset of local time from UTC in force at a
    given UTC instant, and the offset by which a given local time is read. Both may
    change with time, as they do where daylight saving is observed.
  \<^item> Time values stay away from the ends of the range of \<^verbatim>\<open>Date\<close> (about 270000
    years either side of 1970): \<^verbatim>\<open>TimeClip\<close> is the identity.
\<close>

subsection \<open>Numbers of the platform\<close>

text \<open>
  A binary64 value: a finite number (\<open>Num 0\<close> is the positive zero), the negative zero,
  an infinity, or not a number.
\<close>

datatype jsnum = Num rat | NegZero | PosInfinity | NegInfinity | NaN

text \<open>The largest \<open>k\<close> with \<open>2 ^ k \<le> a\<close>, for a positive \<open>a\<close>.\<close>

definition floorlog2 :: "rat \<Rightarrow> int" where
  "floorlog2 a =
     (let k = bitlen (fst (quotient_of a)) - bitlen (snd (quotient_of a))
      in if 2 powi k \<le> a then k else k - 1)"

text \<open>The nearest integer, the even one of two that are equally near.\<close>

definition round_half_even :: "rat \<Rightarrow> int" where
  "round_half_even q =
     (let f = \<lfloor>q\<rfloor>; r = q - of_int f
      in if r < 1 / 2 then f else if 1 / 2 < r then f + 1 else if even f then f else f + 1)"

text \<open>
  Rounding an exact result to binary64: 53 significant bits, the unit in the last place
  never below \<open>2 ^ - 1074\<close> (the subnormal numbers), an infinity from \<open>2 ^ 1024\<close> on, and
  a zero that keeps the sign of what was rounded.
\<close>

definition round_double :: "rat \<Rightarrow> jsnum" where
  "round_double x =
     (if x = 0 then Num 0
      else
        let a = \<bar>x\<bar>;
            e = max (floorlog2 a - 52) (- 1074);
            r = of_int (round_half_even (a / 2 powi e)) * 2 powi e
        in if 2 ^ 1024 \<le> r then (if 0 < x then PosInfinity else NegInfinity)
           else if r = 0 then (if 0 < x then Num 0 else NegZero)
           else Num (if 0 < x then r else - r))"

text \<open>The number that a decimal numeral denotes.\<close>

definition js_num :: "rat \<Rightarrow> jsnum" where
  "js_num x = round_double x"

fun js_val :: "jsnum \<Rightarrow> rat" where
  "js_val (Num a) = a"
| "js_val x = 0"

fun isZero :: "jsnum \<Rightarrow> bool" where
  "isZero (Num a) = (a = 0)"
| "isZero NegZero = True"
| "isZero x = False"

fun isInf :: "jsnum \<Rightarrow> bool" where
  "isInf PosInfinity = True"
| "isInf NegInfinity = True"
| "isInf x = False"

fun signbit :: "jsnum \<Rightarrow> bool" where
  "signbit (Num a) = (a < 0)"
| "signbit NegZero = True"
| "signbit NegInfinity = True"
| "signbit x = False"

text \<open>\<^verbatim>\<open>x + y\<close>.\<close>

fun js_add :: "jsnum \<Rightarrow> jsnum \<Rightarrow> jsnum" where
  "js_add NaN y = NaN"
| "js_add x NaN = NaN"
| "js_add PosInfinity NegInfinity = NaN"
| "js_add NegInfinity PosInfinity = NaN"
| "js_add PosInfinity y = PosInfinity"
| "js_add x PosInfinity = PosInfinity"
| "js_add NegInfinity y = NegInfinity"
| "js_add x NegInfinity = NegInfinity"
| "js_add NegZero NegZero = NegZero"
| "js_add NegZero (Num b) = Num b"
| "js_add (Num a) NegZero = Num a"
| "js_add (Num a) (Num b) = round_double (a + b)"

fun js_neg :: "jsnum \<Rightarrow> jsnum" where
  "js_neg (Num a) = (if a = 0 then NegZero else Num (- a))"
| "js_neg NegZero = Num 0"
| "js_neg PosInfinity = NegInfinity"
| "js_neg NegInfinity = PosInfinity"
| "js_neg NaN = NaN"

text \<open>\<^verbatim>\<open>x - y\<close>.\<close>

definition js_sub :: "jsnum \<Rightarrow> jsnum \<Rightarrow> jsnum" where
  "js_sub x y = js_add x (js_neg y)"

text \<open>\<^verbatim>\<open>x * y\<close>.\<close>

definition js_times :: "jsnum \<Rightarrow> jsnum \<Rightarrow> jsnum" where
  "js_times x y =
     (if x = NaN \<or> y = NaN then NaN
      else if (isInf x \<and> isZero y) \<or> (isZero x \<and> isInf y) then NaN
      else if isInf x \<or> isInf y then (if signbit x = signbit y then PosInfinity else NegInfinity)
      else if isZero x \<or> isZero y then (if signbit x = signbit y then Num 0 else NegZero)
      else round_double (js_val x * js_val y))"

text \<open>\<^verbatim>\<open>x / y\<close>.\<close>

definition js_div :: "jsnum \<Rightarrow> jsnum \<Rightarrow> jsnum" where
  "js_div x y =
     (if x = NaN \<or> y = NaN then NaN
      else if (isInf x \<and> isInf y) \<or> (isZero x \<and> isZero y) then NaN
      else if isInf x \<or> isZero y then (if signbit x = signbit y then PosInfinity else NegInfinity)
      else if isZero x \<or> isInf y then (if signbit x = signbit y then Num 0 else NegZero)
      else round_double (js_val x / js_val y))"

text \<open>\<^verbatim>\<open>x < y\<close> and \<^verbatim>\<open>x > y\<close>: false when either side is not a number; the two zeros are equal.\<close>

fun js_lt :: "jsnum \<Rightarrow> jsnum \<Rightarrow> bool" where
  "js_lt NaN y = False"
| "js_lt x NaN = False"
| "js_lt PosInfinity y = False"
| "js_lt x NegInfinity = False"
| "js_lt NegInfinity y = True"
| "js_lt x PosInfinity = True"
| "js_lt x y = (js_val x < js_val y)"

definition js_gt :: "jsnum \<Rightarrow> jsnum \<Rightarrow> bool" where
  "js_gt x y = js_lt y x"

text \<open>\<^verbatim>\<open>Math.min(x, y)\<close>: not a number if either is; the negative zero is below the positive one.\<close>

definition Math_min :: "jsnum \<Rightarrow> jsnum \<Rightarrow> jsnum" where
  "Math_min x y =
     (if x = NaN \<or> y = NaN then NaN
      else if js_lt x y then x
      else if js_lt y x then y
      else if y = NegZero then y else x)"

subsection \<open>Dates of the platform\<close>

datatype jsdate = TimeValue int | InvalidDate

definition msPerDay :: int where
  "msPerDay = 86400000"

definition Day :: "int \<Rightarrow> int" where
  "Day t = t div msPerDay"

definition TimeWithinDay :: "int \<Rightarrow> int" where
  "TimeWithinDay t = t mod msPerDay"

text \<open>
  The day number of the first day of month \<open>m\<close> (0 = January) of year \<open>y\<close>, counted from
  1 January 1970, in the proleptic Gregorian calendar. The year is taken to start in
  March, so that the leap day is its last day.
\<close>

definition days_from_civil :: "int \<Rightarrow> int \<Rightarrow> int" where
  "days_from_civil y m =
     (let y' = (if m < 2 then y - 1 else y);
          era = y' div 400;
          yoe = y' mod 400;
          mp = (if m < 2 then m + 10 else m - 2);
          doy = (153 * mp + 2) div 5;
          doe = yoe * 365 + yoe div 4 - yoe div 100 + doy
      in era * 146097 + doe - 719468)"

text \<open>The year, the month (0 = January) and the day of the month (from 1) of a day number.\<close>

definition civil_from_days :: "int \<Rightarrow> int \<times> int \<times> int" where
  "civil_from_days z =
     (let z' = z + 719468;
          era = z' div 146097;
          doe = z' mod 146097;
          yoe = (doe - doe div 1460 + doe div 36524 - doe div 146096) div 365;
          doy = doe - (365 * yoe + yoe div 4 - yoe div 100);
          mp = (5 * doy + 2) div 153;
          d = doy - (153 * mp + 2) div 5 + 1;
          m = (if mp < 10 then mp + 2 else mp - 10);
          y = yoe + era * 400
      in (if m < 2 then y + 1 else y, m, d))"

text \<open>\<^verbatim>\<open>YearFromTime\<close> and \<^verbatim>\<open>MonthFromTime\<close> of the language standard.\<close>

definition YearFromTime :: "int \<Rightarrow> int" where
  "YearFromTime t = fst (civil_from_days (Day t))"

definition MonthFromTime :: "int \<Rightarrow> int" where
  "MonthFromTime t = fst (snd (civil_from_days (Day t)))"

text \<open>\<^verbatim>\<open>MakeDay(year, month, date)\<close>: a month outside 0..11 carries into the year.\<close>

definition MakeDay :: "int \<Rightarrow> int \<Rightarrow> int \<Rightarrow> int" where
  "MakeDay year month date =
     days_from_civil (year + month div 12) (month mod 12) + date - 1"

definition MakeTime :: "int \<Rightarrow> int \<Rightarrow> int \<Rightarrow> int \<Rightarrow> int" where
  "MakeTime hour minute sec ms = hour * 3600000 + minute * 60000 + sec * 1000 + ms"

definition MakeDate :: "int \<Rightarrow> int \<Rightarrow> int" where
  "MakeDate day time = day * msPerDay + time"

text \<open>
  The time zone of the host: \<open>offsetAtUTC z t\<close> is the offset, in milliseconds, in force at
  the UTC instant \<open>t\<close>; \<open>offsetAtLocal z x\<close> is the offset by which the local time \<open>x\<close> is
  read (for a local time that occurs twice or not at all, the offset before the change).
  They are \<^verbatim>\<open>LocalTZA(t, true)\<close> and \<^verbatim>\<open>LocalTZA(x, false)\<close> of the language standard.
\<close>

record zone =
  offsetAtUTC :: "int \<Rightarrow> int"
  offsetAtLocal :: "int \<Rightarrow> int"

definition LocalTime :: "zone \<Rightarrow> int \<Rightarrow> int" where
  "LocalTime z t = t + offsetAtUTC z t"

definition UTC :: "zone \<Rightarrow> int \<Rightarrow> int" where
  "UTC z x = x - offsetAtLocal z x"

text \<open>The methods of \<^verbatim>\<open>Date\<close> that the month window uses, on the time value of a valid date.\<close>

definition getFullYear :: "zone \<Rightarrow> int \<Rightarrow> int" where
  "getFullYear z t = YearFromTime (LocalTime z t)"

definition getMonth :: "zone \<Rightarrow> int \<Rightarrow> int" where
  "getMonth z t = MonthFromTime (LocalTime z t)"

definition setDate :: "zone \<Rightarrow> int \<Rightarrow> int \<Rightarrow> int" where
  "setDate z t dt =
     (let t' = LocalTime z t
      in UTC z (MakeDate (MakeDay (YearFromTime t') (MonthFromTime t') dt) (TimeWithinDay t')))"

definition setHours :: "zone \<Rightarrow> int \<Rightarrow> int \<Rightarrow> int \<Rightarrow> int \<Rightarrow> int \<Rightarrow> int" where
  "setHours z t hour minute sec ms =
     (let t' = LocalTime z t
      in UTC z (MakeDate (Day t') (MakeTime hour minute sec ms)))"

definition setFullYear :: "zone \<Rightarrow> int \<Rightarrow> int \<Rightarrow> int \<Rightarrow> int \<Rightarrow> int" where
  "setFullYear z t year month dt =
     (let t' = LocalTime z t
      in UTC z (MakeDate (MakeDay year month dt) (TimeWithinDay t')))"

text \<open>
  \<^verbatim>\<open>startOfMonth(d)\<close> of date-fns: \<^verbatim>\<open>d.setDate(1); d.setHours(0, 0, 0, 0)\<close>.
\<close>

definition startOfMonth :: "zone \<Rightarrow> int \<Rightarrow> int" where
  "startOfMonth z t = setHours z (setDate z t 1) 0 0 0 0"

text \<open>
  \<^verbatim>\<open>endOfMonth(d)\<close> of date-fns:
  \<^verbatim>\<open>d.setFullYear(d.getFullYear(), d.getMonth() + 1, 0); d.setHours(23, 59, 59, 999)\<close>.
\<close>

definition endOfMonth :: "zone \<Rightarrow> int \<Rightarrow> int" where
  "endOfMonth z t =
     (let month = getMonth z t
      in setHours z (setFullYear z t (getFullYear z t) (month + 1) 0) 23 59 59 999)"

text \<open>
  \<^verbatim>\<open>isWithinInterval(d, {start, end})\<close> of date-fns, for \<open>start \<le> end\<close>: both ends belong to
  the interval, and an invalid date is in no interval. (For \<open>end < start\<close> the library
  raises or swaps the ends, depending on its version; the month window of a zone whose
  offsets stay within a day is never so, see \<open>firstInstant_le_lastInstant\<close>.)
\<close>

fun isWithinInterval :: "jsdate \<Rightarrow> int \<Rightarrow> int \<Rightarrow> bool" where
  "isWithinInterval (TimeValue t) start end' = (start \<le> t \<and> t \<le> end')"
| "isWithinInterval InvalidDate start end' = False"

text \<open>\<^verbatim>\<open>d <= new Date(t)\<close>: the comparison of the time values, false for an invalid date.\<close>

fun date_le :: "jsdate \<Rightarrow> int \<Rightarrow> bool" where
  "date_le (TimeValue d) t = (d \<le> t)"
| "date_le InvalidDate t = False"

subsection \<open>Rows of the store (\<^verbatim>\<open>lib/supabase.ts\<close>)\<close>

text \<open>An optional or nullable field is an \<open>option\<close>.\<close>

record category =
  id' :: string
  user_id :: string
  name :: string
  icon :: string
  color :: string
  is_default :: bool
  created_at :: string

record expense =
  id' :: string
  user_id :: string
  category_id :: "string option"
  amount :: rat
  description :: string
  date :: jsdate
  payment_method :: string
  receipt_url :: "string option"
  location :: "string option"
  tags :: "string list"
  is_regret :: bool
  regret_reason :: "string option"
  regret_intensity :: "int option"
  created_at :: string
  category :: "category option"

datatype period = weekly | monthly | yearly

record budget =
  id' :: string
  user_id :: string
  category_id :: string
  amount :: rat
  period :: period
  start_date :: string
  end_date :: string
  is_active :: bool
  created_at :: string
  category :: "category option"

datatype frequency = f_daily | f_weekly | f_monthly | f_yearly

record recurringPayment =
  id' :: string
  user_id :: string
  category_id :: "string option"
  name :: string
  amount :: rat
  frequency :: frequency
  next_due_date :: jsdate
  is_active :: bool
  auto_pay :: bool
  provider :: "string option"
  last_paid :: "string option"
  created_at :: string
  category :: "category option"

subsection \<open>Budget progress (\<^verbatim>\<open>pages/Budgets.tsx\<close>)\<close>

text \<open>The budget row, spread into the result, and the four derived fields.\<close>

record budgetProgressRow = budget +
  spent :: jsnum
  remaining :: jsnum
  percentage :: jsnum
  isOverBudget :: bool

text \<open>The expenses of one budget: same category, date in the window.\<close>

definition categoryExpenses :: "int \<Rightarrow> int \<Rightarrow> budget \<Rightarrow> expense list \<Rightarrow> expense list" where
  "categoryExpenses monthStart monthEnd b expenses =
     filter (\<lambda>e. expense.category_id e = Some (budget.category_id b)
                 \<and> isWithinInterval (expense.date e) monthStart monthEnd) expenses"

text \<open>\<^verbatim>\<open>xs.reduce((sum, expense) => sum + expense.amount, 0)\<close>.\<close>

definition reduce_amount :: "expense list \<Rightarrow> jsnum" where
  "reduce_amount xs = foldl (\<lambda>sum e. js_add sum (js_num (expense.amount e))) (Num 0) xs"

definition budgetProgress1 :: "int \<Rightarrow> int \<Rightarrow> expense list \<Rightarrow> budget \<Rightarrow> budgetProgressRow" where
  "budgetProgress1 monthStart monthEnd expenses b =
     (let spent = reduce_amount (categoryExpenses monthStart monthEnd b expenses);
          remaining = js_sub (js_num (budget.amount b)) spent;
          percentage = js_times (js_div spent (js_num (budget.amount b))) (Num 100)
      in budget.extend b
           (budgetProgressRow.fields spent remaining (Math_min percentage (Num 100))
              (js_gt spent (js_num (budget.amount b)))))"

definition budgetProgress :: "zone \<Rightarrow> int \<Rightarrow> budget list \<Rightarrow> expense list \<Rightarrow> budgetProgressRow list" where
  "budgetProgress z now budgets expenses =
     (let monthStart = startOfMonth z now;
          monthEnd = endOfMonth z now
      in map (budgetProgress1 monthStart monthEnd expenses) budgets)"

subsection \<open>Monthly statistics (\<^verbatim>\<open>pages/Dashboard.tsx\<close>)\<close>

record monthlyStats =
  totalSpent :: jsnum
  totalBudget :: jsnum
  budgetRemaining :: jsnum
  regretSpending :: jsnum
  upcomingPayments :: "recurringPayment list"
  expenseCount :: nat

definition monthlyExpenses :: "int \<Rightarrow> int \<Rightarrow> expense list \<Rightarrow> expense list" where
  "monthlyExpenses monthStart monthEnd expenses =
     filter (\<lambda>e. isWithinInterval (expense.date e) monthStart monthEnd) expenses"

text \<open>
  The component reads the clock once for the window and once more, inside the memo, for
  the payments; both readings are the argument \<open>now\<close>.
\<close>

definition monthlyStats ::
  "zone \<Rightarrow> int \<Rightarrow> expense list \<Rightarrow> budget list \<Rightarrow> recurringPayment list \<Rightarrow> monthlyStats" where
  "monthlyStats z now expenses budgets recurringPayments =
     (let monthStart = startOfMonth z now;
          monthEnd = endOfMonth z now;
          monthly = monthlyExpenses monthStart monthEnd expenses;
          totalSpent = reduce_amount monthly;
          totalBudget = foldl (\<lambda>sum b. js_add sum (js_num (budget.amount b))) (Num 0) budgets;
          regretSpending = reduce_amount (filter expense.is_regret monthly);
          upcomingPayments =
            filter (\<lambda>p. date_le (next_due_date p) (now + 7 * 24 * 60 * 60 * 1000))
              recurringPayments
      in \<lparr> totalSpent = totalSpent,
           totalBudget = totalBudget,
           budgetRemaining = js_sub totalBudget totalSpent,
           regretSpending = regretSpending,
           upcomingPayments = upcomingPayments,
           expenseCount = length monthly \<rparr>)"

subsection \<open>Refreshing the snapshots (\<^verbatim>\<open>contexts/DataContext.tsx\<close>)\<close>

record debt =
  id' :: string
  user_id :: string
  name :: string
  total_amount :: rat
  remaining_amount :: rat
  interest_rate :: "rat option"
  emi_amount :: "rat option"
  due_date :: "string option"
  lender :: "string option"
  debt_type :: string
  created_at :: string

record savingsChallenge =
  id' :: string
  user_id :: string
  title :: string
  description :: "string option"
  target_amount :: rat
  current_amount :: rat
  start_date :: string
  end_date :: string
  is_completed :: bool
  challenge_type :: string
  created_at :: string

record regretPurchase =
  id' :: string
  user_id :: string
  expense_id :: string
  regret_reason :: string
  intensity :: int
  emotional_trigger :: "string option"
  alternative_action :: "string option"
  lesson_learned :: "string option"
  created_at :: string
  expense :: "expense option"

record insight =
  id' :: string
  user_id :: string
  insight_type :: string
  title :: string
  content :: string
  data :: string
  is_read :: bool
  created_at :: string

text \<open>
  What awaiting one query gives: the promise resolves to a result whose \<^verbatim>\<open>data\<close> is the
  list of rows or \<^verbatim>\<open>null\<close> (the store reported an error), or the promise rejects. The
  client built by \<^verbatim>\<open>createClient\<close> in \<^verbatim>\<open>lib/supabase.ts\<close> resolves a failed query, also one whose
  request did not reach the store, with \<^verbatim>\<open>data: null\<close> and the error; it rejects only when
  asked to throw, which the code never does. The rejection is kept in the type for what
  lies outside the client.
\<close>

datatype 'a queryResult = Resolved "'a list option" | Rejected

text \<open>The answers of the store to the eight queries of one refresh, in the order of the source.\<close>

record storeResults =
  categoriesResult :: "category queryResult"
  expensesResult :: "expense queryResult"
  budgetsResult :: "budget queryResult"
  recurringPaymentsResult :: "recurringPayment queryResult"
  debtsResult :: "debt queryResult"
  savingsChallengesResult :: "savingsChallenge queryResult"
  regretPurchasesResult :: "regretPurchase queryResult"
  insightsResult :: "insight queryResult"

text \<open>The state of the provider: the eight snapshots and the loading flag.\<close>

record dataState =
  categories :: "category list"
  expenses :: "expense list"
  budgets :: "budget list"
  recurringPayments :: "recurringPayment list"
  debts :: "debt list"
  savingsChallenges :: "savingsChallenge list"
  regretPurchases :: "regretPurchase list"
  insights :: "insight list"
  loading :: bool

fun isRejected :: "'a queryResult \<Rightarrow> bool" where
  "isRejected Rejected = True"
| "isRejected (Resolved d) = False"

text \<open>\<^verbatim>\<open>await Promise.all([...])\<close> raises as soon as one of the eight promises rejects.\<close>

definition promiseAllRejects :: "storeResults \<Rightarrow> bool" where
  "promiseAllRejects r =
     (isRejected (categoriesResult r) \<or> isRejected (expensesResult r)
      \<or> isRejected (budgetsResult r) \<or> isRejected (recurringPaymentsResult r)
      \<or> isRejected (debtsResult r) \<or> isRejected (savingsChallengesResult r)
      \<or> isRejected (regretPurchasesResult r) \<or> isRejected (insightsResult r))"

text \<open>\<^verbatim>\<open>if (result.data) setX(result.data)\<close>: an empty array is truthy, \<^verbatim>\<open>null\<close> is not.\<close>

fun setIfData :: "'a queryResult \<Rightarrow> 'a list \<Rightarrow> 'a list" where
  "setIfData (Resolved (Some rows)) old = rows"
| "setIfData (Resolved None) old = old"
| "setIfData Rejected old = old"

text \<open>
  The state after \<^verbatim>\<open>refreshData()\<close> has run to its end. \<open>user\<close> is the id of the signed-in
  user (\<open>None\<close> when nobody is signed in) and \<open>r\<close> is what the store answers to the eight
  queries. Without a user the function returns at once. When the \<^verbatim>\<open>await\<close> raises, the
  handler only logs, and \<^verbatim>\<open>finally\<close> clears the loading flag.
\<close>

definition refreshData :: "string option \<Rightarrow> storeResults \<Rightarrow> dataState \<Rightarrow> dataState" where
  "refreshData user r s =
     (case user of
        None \<Rightarrow> s
      | Some u \<Rightarrow>
          (if promiseAllRejects r then s\<lparr> loading := False \<rparr>
           else \<lparr> categories = setIfData (categoriesResult r) (categories s),
                  expenses = setIfData (expensesResult r) (expenses s),
                  budgets = setIfData (budgetsResult r) (budgets s),
                  recurringPayments = setIfData (recurringPaymentsResult r) (recurringPayments s),
                  debts = setIfData (debtsResult r) (debts s),
                  savingsChallenges = setIfData (savingsChallengesResult r) (savingsChallenges s),
                  regretPurchases = setIfData (regretPurchasesResult r) (regretPurchases s),
                  insights = setIfData (insightsResult r) (insights s),
                  loading = False \<rparr>))"

subsection \<open>The row submitted by the expense form (\<^verbatim>\<open>pages/QuickExpense.tsx\<close>)\<close>

text \<open>
  The values of the form. \<open>date\<close> is the \<^verbatim>\<open>Date\<close> built from the text of the date input;
  an optional field that is absent is \<open>None\<close>.
\<close>

record expenseFormData =
  amount :: rat
  description :: string
  category_id :: string
  payment_method :: string
  date :: jsdate
  location :: "string option"
  tags :: "string list"
  is_regret :: bool
  regret_reason :: "string option"
  regret_intensity :: "int option"

text \<open>
  The object handed to \<^verbatim>\<open>insert\<close>. \<open>None\<close> is \<^verbatim>\<open>null\<close> (or an absent value, which the store
  stores as \<^verbatim>\<open>null\<close>); \<open>date\<close> is the time value that \<^verbatim>\<open>toISOString()\<close> prints.
\<close>

record expenseData =
  user_id :: string
  amount :: rat
  description :: string
  category_id :: "string option"
  payment_method :: string
  date :: int
  location :: "string option"
  tags :: "string list"
  is_regret :: bool
  regret_reason :: "string option"
  regret_intensity :: "int option"

text \<open>\<^verbatim>\<open>s || null\<close> for a string that may be absent: the empty string is falsy.\<close>

fun or_null :: "string option \<Rightarrow> string option" where
  "or_null None = None"
| "or_null (Some s) = (if s = [] then None else Some s)"

text \<open>
  The row that \<^verbatim>\<open>onSubmit\<close> hands to \<^verbatim>\<open>insert\<close>, or \<open>None\<close> when it hands none: nobody is
  signed in, or \<^verbatim>\<open>toISOString()\<close> raises on an invalid date and the handler reports
  the error.
\<close>

definition onSubmit :: "string option \<Rightarrow> expenseFormData \<Rightarrow> expenseData option" where
  "onSubmit user d =
     (case user of
        None \<Rightarrow> None
      | Some u \<Rightarrow>
          (case expenseFormData.date d of
             InvalidDate \<Rightarrow> None
           | TimeValue t \<Rightarrow>
               Some \<lparr> expenseData.user_id = u,
                      amount = expenseFormData.amount d,
                      description = expenseFormData.description d,
                      category_id = or_null (Some (expenseFormData.category_id d)),
                      payment_method = expenseFormData.payment_method d,
                      date = t,
                      location = or_null (expenseFormData.location d),
                      tags = expenseFormData.tags d,
                      is_regret = expenseFormData.is_regret d,
                      regret_reason =
                        (if expenseFormData.is_regret d then expenseFormData.regret_reason d else None),
                      regret_intensity =
                        (if expenseFormData.is_regret d then expenseFormData.regret_intensity d else None) \<rparr>))"

subsection \<open>The properties as the specification words them\<close>

text \<open>
  The Gregorian calendar by its rules, stated apart from the functions of the platform:
  leap years, the number of days of month \<open>m\<close> (0 = January) of year \<open>y\<close>, the day number
  of 1 January of year \<open>y\<close> counted from 1 January 1970, and the day number of the first
  day of month \<open>m\<close> (\<open>m = 12\<close> is January of the next year).
\<close>

definition isLeapYear :: "int \<Rightarrow> bool" where
  "isLeapYear y = (y mod 4 = 0 \<and> (y mod 100 \<noteq> 0 \<or> y mod 400 = 0))"

definition daysInMonth :: "int \<Rightarrow> int \<Rightarrow> int" where
  "daysInMonth y m =
     (if m = 1 then (if isLeapYear y then 29 else 28)
      else if m = 3 \<or> m = 5 \<or> m = 8 \<or> m = 10 then 30 else 31)"

definition spec_dayFromYear :: "int \<Rightarrow> int" where
  "spec_dayFromYear y =
     365 * (y - 1970) + (y - 1969) div 4 - (y - 1901) div 100 + (y - 1601) div 400"

definition spec_firstDayOfMonth :: "int \<Rightarrow> int \<Rightarrow> int" where
  "spec_firstDayOfMonth y m = spec_dayFromYear y + sum_list (map (daysInMonth y) [0..m - 1])"

text \<open>The local time \<open>x\<close> lies in month \<open>m\<close> of year \<open>y\<close>.\<close>

definition spec_inMonth :: "int \<Rightarrow> int \<Rightarrow> int \<Rightarrow> bool" where
  "spec_inMonth y m x =
     (spec_firstDayOfMonth y m * 86400000 \<le> x \<and> x < spec_firstDayOfMonth y (m + 1) * 86400000)"

text \<open>
  The month of the clock: month \<open>m\<close> of year \<open>y\<close> is the current month when the local time
  of the instant \<open>now\<close> lies in it.
\<close>

definition spec_currentMonth :: "zone \<Rightarrow> int \<Rightarrow> int \<Rightarrow> int \<Rightarrow> bool" where
  "spec_currentMonth z now y m =
     (0 \<le> m \<and> m \<le> 11 \<and> spec_inMonth y m (now + offsetAtUTC z now))"

text \<open>
  The first instant of the month, local midnight of its first day, and its last instant,
  the millisecond before local midnight of the first day of the next month.
\<close>

definition spec_firstInstant :: "zone \<Rightarrow> int \<Rightarrow> int \<Rightarrow> int" where
  "spec_firstInstant z y m =
     spec_firstDayOfMonth y m * 86400000
       - offsetAtLocal z (spec_firstDayOfMonth y m * 86400000)"

definition spec_lastInstant :: "zone \<Rightarrow> int \<Rightarrow> int \<Rightarrow> int" where
  "spec_lastInstant z y m =
     spec_firstDayOfMonth y (m + 1) * 86400000 - 1
       - offsetAtLocal z (spec_firstDayOfMonth y (m + 1) * 86400000 - 1)"

text \<open>\<open>date(e) in currentMonthWindow\<close>: the closed interval from the first to the last instant of the month.\<close>

definition spec_inMonthWindow :: "zone \<Rightarrow> int \<Rightarrow> int \<Rightarrow> jsdate \<Rightarrow> bool" where
  "spec_inMonthWindow z y m d =
     (case d of
        TimeValue t \<Rightarrow> spec_firstInstant z y m \<le> t \<and> t \<le> spec_lastInstant z y m
      | InvalidDate \<Rightarrow> False)"

text \<open>The sum of a list of amounts as the language adds numbers: from 0, one after the other.\<close>

definition spec_sum :: "rat list \<Rightarrow> jsnum" where
  "spec_sum xs = foldl js_add (Num 0) (map js_num xs)"

text \<open>
  \<open>spent(B,E)\<close>: the sum of \<open>amount(e)\<close> for \<open>e\<close> in \<open>E\<close> where \<open>category(e) = category(B)\<close> and
  \<open>date(e)\<close> is in the window of the month.
\<close>

definition spec_spent :: "zone \<Rightarrow> int \<Rightarrow> int \<Rightarrow> budget \<Rightarrow> expense list \<Rightarrow> jsnum" where
  "spec_spent z y m b E =
     spec_sum (map expense.amount
       (filter (\<lambda>e. expense.category_id e = Some (budget.category_id b)
                   \<and> spec_inMonthWindow z y m (expense.date e)) E))"

text \<open>\<open>min(100, 100 * spent / amount)\<close>, the operations in the order written.\<close>

definition spec_percentage :: "jsnum \<Rightarrow> jsnum \<Rightarrow> jsnum" where
  "spec_percentage s a = Math_min (Num 100) (js_div (js_times (Num 100) s) a)"

text \<open>A due date that falls within the next 7 days from the instant \<open>now\<close>, both ends included.\<close>

definition spec_dueWithinNext7Days :: "int \<Rightarrow> recurringPayment \<Rightarrow> bool" where
  "spec_dueWithinNext7Days now p =
     (case next_due_date p of
        TimeValue t \<Rightarrow> now \<le> t \<and> t \<le> now + 7 * msPerDay
      | InvalidDate \<Rightarrow> False)"

text \<open>
  A zone as zones are: reading a local time and looking at the clock at that instant
  gives a local time of the same day (an hour skipped in spring stays within its day),
  and no offset is larger than a day.
\<close>

definition zoneKeepsDay :: "zone \<Rightarrow> bool" where
  "zoneKeepsDay z =
     (\<forall>x. (x - offsetAtLocal z x + offsetAtUTC z (x - offsetAtLocal z x)) div 86400000
          = x div 86400000)"

definition zoneWithinDay :: "zone \<Rightarrow> bool" where
  "zoneWithinDay z = (\<forall>x. \<bar>offsetAtLocal z x\<bar> \<le> 86400000)"

subsection \<open>Notions of the proofs\<close>

text \<open>The number of days from the civil epoch of \<open>days_from_civil\<close> to 1 March of year \<open>y\<close>.\<close>

definition year_days :: "int \<Rightarrow> int" where
  "year_days y =
     (y div 400) * 146097 + (y mod 400) * 365 + (y mod 400) div 4 - (y mod 400) div 100"

text \<open>Values on the grid of the smallest binary64 step, \<open>2 ^ - 1074\<close>.\<close>

fun onGrid :: "jsnum \<Rightarrow> bool" where
  "onGrid (Num a) = (a * 2 ^ 1074 \<in> \<int>)"
| "onGrid x = True"

subsection \<open>Rows, zones and clocks for the concrete checks\<close>

definition mk_budget :: "string \<Rightarrow> rat \<Rightarrow> period \<Rightarrow> budget" where
  "mk_budget c a p =
     \<lparr> budget.id' = ''b1'', user_id = ''u1'', category_id = c, amount = a, period = p,
       start_date = ''2025-01-01T00:00:00.000Z'', end_date = ''2025-01-31T23:59:59.999Z'',
       is_active = True, created_at = ''2025-01-01T00:00:00.000Z'', category = None \<rparr>"

definition mk_expense :: "string option \<Rightarrow> rat \<Rightarrow> jsdate \<Rightarrow> bool \<Rightarrow> expense" where
  "mk_expense c a d r =
     \<lparr> expense.id' = ''e1'', user_id = ''u1'', category_id = c, amount = a,
       description = ''lunch'', date = d, payment_method = ''cash'', receipt_url = None,
       location = None, tags = [], is_regret = r, regret_reason = None,
       regret_intensity = None, created_at = ''2025-08-02T10:00:00.000Z'', category = None \<rparr>"

definition mk_payment :: "string \<Rightarrow> jsdate \<Rightarrow> recurringPayment" where
  "mk_payment n d =
     \<lparr> recurringPayment.id' = ''p1'', user_id = ''u1'', category_id = None, name = n,
       amount = 499, frequency = f_monthly, next_due_date = d, is_active = True,
       auto_pay = False, provider = None, last_paid = None,
       created_at = ''2025-01-01T00:00:00.000Z'', category = None \<rparr>"

text \<open>
  New York in 2025: five hours behind UTC, four from 9 March 07:00 UTC (local 02:00, read
  as 03:00) to 2 November 06:00 UTC (local 02:00, read as 01:00).
\<close>

definition zone_ny :: zone where
  "zone_ny =
     \<lparr> offsetAtUTC = (\<lambda>t. if t < 1741503600000 then - 18000000
                          else if t < 1762063200000 then - 14400000 else - 18000000),
       offsetAtLocal = (\<lambda>x. if x < 1741489200000 then - 18000000
                            else if x < 1762048800000 then - 14400000 else - 18000000) \<rparr>"

text \<open>15 March 2025, 12:00 UTC: 08:00 in New York, after the change of 9 March.\<close>

definition now_ny :: int where
  "now_ny = 1742040000000"

text \<open>Kolkata: five and a half hours ahead of UTC all year. 15 August 2025, 12:00 UTC.\<close>

definition zone_kolkata :: zone where
  "zone_kolkata = \<lparr> offsetAtUTC = (\<lambda>t. 19800000), offsetAtLocal = (\<lambda>x. 19800000) \<rparr>"

definition now_ex :: int where
  "now_ex = 1755259200000"

definition mk_category :: "string \<Rightarrow> category" where
  "mk_category n =
     \<lparr> category.id' = ''c1'', user_id = ''u1'', name = n, icon = ''tag'', color = ''blue'',
       is_default = False, created_at = ''2025-01-01T00:00:00.000Z'' \<rparr>"

text \<open>A state with one category and one expense loaded.\<close>

definition state_ex :: dataState where
  "state_ex =
     \<lparr> categories = [mk_category ''old''],
       expenses = [mk_expense (Some ''food'') 120 (TimeValue 1755000000000) False],
       budgets = [], recurringPayments = [], debts = [], savingsChallenges = [],
       regretPurchases = [], insights = [], loading = False \<rparr>"

text \<open>The categories query returns one fresh row, the others return no rows; \<open>q\<close> is the outcome of the expenses query.\<close>

definition results_ex :: "expense queryResult \<Rightarrow> storeResults" where
  "results_ex q =
     \<lparr> categoriesResult = Resolved (Some [mk_category ''new'']),
       expensesResult = q,
       budgetsResult = Resolved (Some []),
       recurringPaymentsResult = Resolved (Some []),
       debtsResult = Resolved (Some []),
       savingsChallengesResult = Resolved (Some []),
       regretPurchasesResult = Resolved (Some []),
       insightsResult = Resolved (Some []) \<rparr>"

text \<open>The form as it opens (no category, no location, not a regret, intensity 3), with an amount typed in.\<close>

definition form_ex :: expenseFormData where
  "form_ex =
     \<lparr> expenseFormData.amount = 50, description = ''tea'', category_id = [],
       payment_method = ''cash'', date = TimeValue 1755216000000, location = Some [],
       tags = [], is_regret = False, regret_reason = Some [], regret_intensity = Some 3 \<rparr>"

section \<open>Properties\<close>

subsection \<open>Months follow one another\<close>

lemma div_succ_int:
  fixes a n :: int
  assumes "1 < n"
  shows "(a + 1) div n = a div n + (if a mod n = n - 1 then 1 else 0)"
proof -
  have "(a + 1) div n = a div n + 1 div n + (a mod n + 1 mod n) div n"
    by (rule div_add1_eq)
  also have "1 div n = 0" using assms by simp
  also have "1 mod n = 1" using assms by simp
  finally have e: "(a + 1) div n = a div n + (a mod n + 1) div n" by simp
  have b: "0 \<le> a mod n" "a mod n < n" using assms by simp_all
  show ?thesis
  proof (cases "a mod n = n - 1")
    case True
    then show ?thesis using e assms by simp
  next
    case False
    with b have "a mod n + 1 < n" by simp
    with b have "(a mod n + 1) div n = 0" by simp
    with False e show ?thesis by simp
  qed
qed

lemma mod_succ_int:
  fixes a n :: int
  assumes "1 < n"
  shows "(a + 1) mod n = (if a mod n = n - 1 then 0 else a mod n + 1)"
proof -
  have e: "(a + 1) mod n = (a mod n + 1) mod n" by (simp add: mod_add_left_eq)
  have b: "0 \<le> a mod n" "a mod n < n" using assms by simp_all
  show ?thesis
  proof (cases "a mod n = n - 1")
    case True
    then show ?thesis using e by simp
  next
    case False
    with b have "a mod n + 1 < n" by simp
    with b have "(a mod n + 1) mod n = a mod n + 1" by simp
    with False e show ?thesis by simp
  qed
qed

text \<open>A year that ends a century also ends a group of four years.\<close>

lemma leap_step: "(r + 1) div 100 - r div 100 \<le> (r + 1) div 4 - r div (4::int)"
proof -
  have "r mod 100 = 99 \<Longrightarrow> r mod 4 = 3"
  proof -
    assume h: "r mod 100 = 99"
    have "r mod 4 = (r mod 100) mod 4" by (simp add: mod_mod_cancel)
    with h show ?thesis by simp
  qed
  then show ?thesis by (simp add: div_succ_int)
qed

text \<open>Every year has at least 365 days.\<close>

lemma year_days_step: "year_days y + 365 \<le> year_days (y + 1)"
proof (cases "y mod 400 = 399")
  case True
  then show ?thesis by (simp add: year_days_def div_succ_int mod_succ_int)
next
  case False
  then show ?thesis using leap_step [of "y mod 400"]
    by (simp add: year_days_def div_succ_int mod_succ_int)
qed

lemma days_from_civil_alt:
  "days_from_civil y m =
     year_days (if m < 2 then y - 1 else y)
       + (153 * (if m < 2 then m + 10 else m - 2) + 2) div 5 - 719468"
  by (simp add: days_from_civil_def year_days_def Let_def)

text \<open>The first day of a month comes before the first day of the next month.\<close>

lemma days_from_civil_next:
  assumes "0 \<le> m" "m < 12"
  shows "days_from_civil y m < days_from_civil (y + (m + 1) div 12) ((m + 1) mod 12)"
proof -
  from assms have "m = 0 \<or> m = 1 \<or> m = 2 \<or> m = 3 \<or> m = 4 \<or> m = 5 \<or> m = 6
      \<or> m = 7 \<or> m = 8 \<or> m = 9 \<or> m = 10 \<or> m = 11"
    by arith
  then show ?thesis
    using year_days_step [of "y - 1"]
    by (elim disjE) (simp_all add: days_from_civil_alt)
qed

lemma MakeDay_next_month: "MakeDay y m 1 < MakeDay y (m + 1) 1"
proof -
  have r: "0 \<le> m mod 12" "m mod 12 < 12" by simp_all
  have "days_from_civil (y + m div 12) (m mod 12)
      < days_from_civil (y + m div 12 + (m mod 12 + 1) div 12) ((m mod 12 + 1) mod 12)"
    by (rule days_from_civil_next [OF r])
  moreover have "(m mod 12 + 1) mod 12 = (m + 1) mod 12" by (simp add: mod_add_left_eq)
  moreover have "m div 12 + (m mod 12 + 1) div 12 = (m + 1) div 12"
    using r by (simp add: div_succ_int)
  ultimately show ?thesis
    by (simp add: MakeDay_def add.assoc)
qed

subsection \<open>The calendar\<close>

text \<open>
  The day numbers follow the Gregorian calendar: day 0 is 1 January 1970, and from the
  first day of a month to the first day of the next there are as many days as the month has.
\<close>

lemma year_days_diff:
  "year_days (y + 1) = year_days y + 365 + (if isLeapYear (y + 1) then 1 else 0)"
proof -
  define r where "r = y mod 400"
  have r: "0 \<le> r" "r < 400" by (simp_all add: r_def)
  have r4: "y mod 4 = r mod 4" and r100: "y mod 100 = r mod 100"
    by (simp_all add: r_def mod_mod_cancel)
  have c: "r mod 100 = 99 \<Longrightarrow> r mod 4 = 3"
  proof -
    assume h: "r mod 100 = 99"
    have "r mod 4 = (r mod 100) mod 4" by (simp add: mod_mod_cancel)
    with h show ?thesis by simp
  qed
  show ?thesis
  proof (cases "r = 399")
    case True
    then have "y mod 400 = 399" by (simp add: r_def)
    moreover from True r4 r100 have "y mod 4 = 3" "y mod 100 = 99" by simp_all
    ultimately show ?thesis
      by (simp add: year_days_def isLeapYear_def div_succ_int mod_succ_int)
  next
    case False
    then have n: "y mod 400 \<noteq> 399" by (simp add: r_def)
    have p: "r mod 4 + 1 \<noteq> 0" "r mod 100 + 1 \<noteq> 0"
    proof -
      have "0 \<le> r mod 4" "0 \<le> r mod 100" by simp_all
      then show "r mod 4 + 1 \<noteq> 0" "r mod 100 + 1 \<noteq> 0" by linarith+
    qed
    have l: "isLeapYear (y + 1) \<longleftrightarrow> r mod 4 = 3 \<and> r mod 100 \<noteq> 99"
      using n r p c by (simp add: isLeapYear_def mod_succ_int r4 r100 r_def [symmetric])
    have s: "year_days (y + 1) = year_days y + 365
        + (if r mod 4 = 3 then 1 else 0) - (if r mod 100 = 99 then 1 else 0)"
      using n by (simp add: year_days_def div_succ_int mod_succ_int r_def [symmetric])
    show ?thesis using c by (simp add: l s)
  qed
qed

lemma days_from_civil_epoch: "days_from_civil 1970 0 = 0"
  by (simp add: days_from_civil_def Let_def)

lemma month_length:
  assumes "0 \<le> m" "m < 12"
  shows "days_from_civil (y + (m + 1) div 12) ((m + 1) mod 12)
       = days_from_civil y m + daysInMonth y m"
proof -
  from assms have "m = 0 \<or> m = 1 \<or> m = 2 \<or> m = 3 \<or> m = 4 \<or> m = 5 \<or> m = 6
      \<or> m = 7 \<or> m = 8 \<or> m = 9 \<or> m = 10 \<or> m = 11"
    by arith
  then show ?thesis
    using year_days_diff [of "y - 1"]
    by (elim disjE) (simp_all add: days_from_civil_alt daysInMonth_def)
qed

text \<open>Taking at most \<open>q\<close> whole parts of size \<open>n\<close> out of \<open>x\<close>.\<close>

lemma capped_div:
  fixes x n q :: int
  assumes "0 < n" "0 \<le> x" "0 \<le> q" "x \<le> n * q + n"
  defines "c \<equiv> min q (x div n)"
  shows "0 \<le> c" "c \<le> q" "0 \<le> x - n * c" "x - n * c \<le> n" "c < q \<Longrightarrow> x - n * c < n"
    "x < n * q + n \<Longrightarrow> x - n * c < n"
proof -
  have dm: "n * (x div n) + x mod n = x" by simp
  have m: "0 \<le> x mod n" "x mod n < n" using assms(1) by simp_all
  have d0: "0 \<le> x div n" using assms(1,2) by (simp add: pos_imp_zdiv_nonneg_iff)
  show "0 \<le> c" "c \<le> q" using d0 assms(3) by (simp_all add: c_def)
  show "0 \<le> x - n * c"
  proof -
    have "n * c \<le> n * (x div n)" using assms(1) by (simp add: c_def)
    with dm m show ?thesis by linarith
  qed
  have eq: "x - n * c = x mod n" if "x div n \<le> q"
  proof -
    from that have "c = x div n" by (simp add: c_def)
    then show ?thesis by (simp add: minus_mult_div_eq_mod)
  qed
  have big: "x - n * c \<le> n \<and> \<not> c < q \<and> \<not> x < n * q + n" if "\<not> x div n \<le> q"
  proof -
    from that have cq: "c = q" by (simp add: c_def)
    from that have "q + 1 \<le> x div n" by simp
    then have "n * (q + 1) \<le> n * (x div n)" using assms(1) by simp
    with dm m have "n * (q + 1) \<le> x" by linarith
    then have "n * q + n \<le> x" by (simp add: algebra_simps)
    with assms(4) cq show ?thesis by simp
  qed
  show "x - n * c \<le> n" using eq big m by (cases "x div n \<le> q") simp_all
  show "c < q \<Longrightarrow> x - n * c < n" using eq big m by (cases "x div n \<le> q") simp_all
  show "x < n * q + n \<Longrightarrow> x - n * c < n" using eq big m by (cases "x div n \<le> q") simp_all
qed

text \<open>
  The year of the 400-year era computed from the day of the era is the year that contains
  the day: the day is not before the first day of that year and is before the first day
  of the next one.
\<close>

lemma year_of_era:
  fixes doe :: int
  assumes lo: "0 \<le> doe" and hi: "doe \<le> 146096"
    and yoe: "yoe = (doe - doe div 1460 + doe div 36524 - doe div 146096) div 365"
  shows "0 \<le> yoe \<and> yoe \<le> 399
       \<and> 365 * yoe + yoe div 4 - yoe div 100 \<le> doe
       \<and> doe - (365 * yoe + yoe div 4 - yoe div 100) \<le> 365
       \<and> doe < (if yoe = 399 then 146097
                 else 365 * (yoe + 1) + (yoe + 1) div 4 - (yoe + 1) div 100)"
proof -
  define c where "c = min 3 (doe div 36524)"
  define r where "r = doe - 36524 * c"
  define a where "a = min 24 (r div 1461)"
  define r2 where "r2 = r - 1461 * a"
  define b where "b = min 3 (r2 div 365)"
  define k where "k = r2 - 365 * b"
  have c: "0 \<le> c" "c \<le> 3" "0 \<le> r" "r \<le> 36524" "c < 3 \<Longrightarrow> r < 36524"
    using capped_div [of 36524 doe 3] lo hi by (simp_all add: c_def r_def)
  have a: "0 \<le> a" "a \<le> 24" "0 \<le> r2" "r2 \<le> 1461" "a < 24 \<Longrightarrow> r2 < 1461"
    "r < 36525 \<Longrightarrow> r2 < 1461"
    using capped_div [of 1461 r 24] c by (simp_all add: a_def r2_def)
  have r2': "r2 \<le> 1460" "c < 3 \<Longrightarrow> a = 24 \<Longrightarrow> r2 \<le> 1459"
    using a c by (simp_all add: r2_def)
  have b: "0 \<le> b" "b \<le> 3" "0 \<le> k" "k \<le> 365" "b < 3 \<Longrightarrow> k < 365"
    using capped_div [of 365 r2 3] a r2' by (simp_all add: b_def k_def)
  have k': "c < 3 \<Longrightarrow> a = 24 \<Longrightarrow> k \<le> 364"
    using b r2' by (cases "b < 3") (simp_all add: k_def)
  have doe: "doe = 36524 * c + 1461 * a + 365 * b + k"
    by (simp add: k_def r2_def r_def)
  have d1: "doe div 36524 - doe div 146096 = c"
  proof (cases "doe = 146096")
    case True
    then show ?thesis by (simp add: c_def)
  next
    case False
    with hi have lt: "doe < 146096" by simp
    then have z: "doe div 146096 = 0" using lo by simp
    have "36524 * (doe div 36524) + doe mod 36524 = doe" "0 \<le> doe mod 36524" by simp_all
    with lt have "doe div 36524 \<le> 3" by linarith
    with z show ?thesis by (simp add: c_def)
  qed
  define x where "x = 24 * c + a + 365 * b + k"
  define e where "e = x div 1460"
  have x: "0 \<le> x" "x \<le> 1556" using c a b by (simp_all add: x_def)
  have xm: "1460 * e + x mod 1460 = x" "0 \<le> x mod 1460" "x mod 1460 < 1460"
    by (simp_all add: e_def)
  have e: "0 \<le> e" "e \<le> 1" using x xm by linarith+
  have d2: "doe div 1460 = 25 * c + a + e"
  proof (rule int_div_pos_eq)
    show "doe = 1460 * (25 * c + a + e) + x mod 1460"
      using xm(1) by (simp add: doe x_def algebra_simps)
  qed (use xm in simp_all)
  have ke: "0 \<le> k - e" "k - e \<le> 364"
  proof -
    have "e = 1 \<Longrightarrow> 1 \<le> k" using xm c a b by (simp add: x_def)
    with e b show "0 \<le> k - e" by (cases "e = 1") simp_all
    have "k = 365 \<Longrightarrow> e = 1"
    proof -
      assume h: "k = 365"
      with b have "b = 3" by (cases "b < 3") simp_all
      with h c a have "1460 \<le> x" by (simp add: x_def)
      with xm e show ?thesis by linarith
    qed
    with e b show "k - e \<le> 364" by (cases "k = 365") simp_all
  qed
  have N: "doe - doe div 1460 + doe div 36524 - doe div 146096
      = 365 * (100 * c + 4 * a + b) + (k - e)"
  proof -
    have "doe - doe div 1460 + doe div 36524 - doe div 146096
        = doe - doe div 1460 + (doe div 36524 - doe div 146096)"
      by simp
    also have "\<dots> = doe - (25 * c + a + e) + c"
      by (simp only: d1 d2)
    also have "\<dots> = 365 * (100 * c + 4 * a + b) + (k - e)"
      by (simp add: doe)
    finally show ?thesis .
  qed
  have y: "yoe = 100 * c + 4 * a + b"
    unfolding yoe N by (rule int_div_pos_eq [OF refl]) (use ke in simp_all)
  have y4: "yoe div 4 = 25 * c + a" "yoe mod 4 = b"
    using b by (simp_all add: y int_div_pos_eq [of _ 4 "25 * c + a" b]
        int_mod_pos_eq [of _ 4 "25 * c + a" b])
  have y100: "yoe div 100 = c" "yoe mod 100 = 4 * a + b"
    using a b by (simp_all add: y int_div_pos_eq [of _ 100 c "4 * a + b"]
        int_mod_pos_eq [of _ 100 c "4 * a + b"])
  have f: "365 * yoe + yoe div 4 - yoe div 100 = doe - k"
    by (simp add: y4 y100) (simp add: y doe)
  have rng: "0 \<le> yoe" "yoe \<le> 399" using c a b by (simp_all add: y)
  have up: "doe < 365 * (yoe + 1) + (yoe + 1) div 4 - (yoe + 1) div 100" if n: "yoe \<noteq> 399"
  proof -
    have s4: "(yoe + 1) div 4 = 25 * c + a + (if b = 3 then 1 else 0)"
      by (simp add: div_succ_int y4)
    have s100: "(yoe + 1) div 100 = c + (if 4 * a + b = 99 then 1 else 0)"
      by (simp add: div_succ_int y100)
    show ?thesis
    proof (cases "b = 3")
      case False
      with b have "k < 365" by simp
      moreover from False b a have "4 * a + b \<noteq> 99" by linarith
      ultimately show ?thesis using False by (simp add: s4 s100) (simp add: y doe)
    next
      case True
      show ?thesis
      proof (cases "a = 24")
        case False
        with a True have "4 * a + b \<noteq> 99" by linarith
        then show ?thesis using True b by (simp add: s4 s100) (simp add: y doe)
      next
        case a24: True
        with True n c have "c < 3" by (cases "c = 3") (simp_all add: y)
        with a24 have "k \<le> 364" by (simp add: k')
        then show ?thesis using True a24 by (simp add: s4 s100) (simp add: y doe)
      qed
    qed
  qed
  show ?thesis using rng f b hi up by simp
qed

text \<open>The month computed from the day of the year contains the day.\<close>

lemma month_of_year:
  fixes doy :: int
  assumes "0 \<le> doy" "doy \<le> 365" and mp: "mp = (5 * doy + 2) div 153"
  shows "0 \<le> mp \<and> mp \<le> 11
       \<and> (153 * mp + 2) div 5 \<le> doy \<and> doy < (153 * (mp + 1) + 2) div 5"
proof -
  define u where "u = (5 * doy + 2) mod 153"
  have u: "153 * mp + u = 5 * doy + 2" "0 \<le> u" "u < 153"
    by (simp_all add: mp u_def)
  define q where "q = (153 * mp + 2) div 5"
  define v where "v = (153 * mp + 2) mod 5"
  have q: "5 * q + v = 153 * mp + 2" "0 \<le> v" "v < 5"
    by (simp_all add: q_def v_def)
  define q' where "q' = (153 * (mp + 1) + 2) div 5"
  define v' where "v' = (153 * (mp + 1) + 2) mod 5"
  have q': "5 * q' + v' = 153 * mp + 155" "0 \<le> v'" "v' < 5"
    using mult_div_mod_eq [of 5 "153 * (mp + 1) + 2"]
    by (simp_all add: q'_def v'_def algebra_simps)
  have "0 \<le> mp" using u assms(1) by linarith
  moreover have "mp \<le> 11" using u assms(2) by linarith
  moreover have "q \<le> doy" using u q by linarith
  moreover have "doy < q'" using u q' by linarith
  ultimately show ?thesis by (simp add: q_def q'_def)
qed

lemma year_days_era:
  assumes "0 \<le> yoe" "yoe \<le> 399"
  shows "year_days (yoe + era * 400) = era * 146097 + (365 * yoe + yoe div 4 - yoe div 100)"
proof -
  have "yoe + era * 400 = 400 * era + yoe" by simp
  with assms have "(yoe + era * 400) div 400 = era" "(yoe + era * 400) mod 400 = yoe"
    by (simp_all add: int_div_pos_eq [of _ 400 era yoe] int_mod_pos_eq [of _ 400 era yoe])
  then show ?thesis by (simp add: year_days_def)
qed

lemma year_days_era_next:
  assumes "0 \<le> yoe" "yoe \<le> 399"
  shows "year_days (yoe + era * 400 + 1)
       = era * 146097 + (if yoe = 399 then 146097
                         else 365 * (yoe + 1) + (yoe + 1) div 4 - (yoe + 1) div 100)"
proof (cases "yoe = 399")
  case True
  have "year_days (0 + (era + 1) * 400) = (era + 1) * 146097 + (365 * 0 + 0 div 4 - 0 div 100)"
    by (rule year_days_era) simp_all
  moreover have "0 + (era + 1) * 400 = yoe + era * 400 + 1" using True by simp
  ultimately show ?thesis using True by (simp add: algebra_simps)
next
  case False
  with assms have "0 \<le> yoe + 1" "yoe + 1 \<le> 399" by simp_all
  then have "year_days (yoe + 1 + era * 400)
      = era * 146097 + (365 * (yoe + 1) + (yoe + 1) div 4 - (yoe + 1) div 100)"
    by (rule year_days_era)
  moreover have "yoe + 1 + era * 400 = yoe + era * 400 + 1" by simp
  ultimately show ?thesis using False by (simp only: if_False)
qed

lemma civil_from_days_eq:
  assumes "era = (z + 719468) div 146097"
    and "doe = (z + 719468) mod 146097"
    and "yoe = (doe - doe div 1460 + doe div 36524 - doe div 146096) div 365"
    and "doy = doe - (365 * yoe + yoe div 4 - yoe div 100)"
    and "mp = (5 * doy + 2) div 153"
  shows "civil_from_days z
       = (if (if mp < 10 then mp + 2 else mp - 10) < 2 then yoe + era * 400 + 1
          else yoe + era * 400,
          if mp < 10 then mp + 2 else mp - 10,
          doy - (153 * mp + 2) div 5 + 1)"
  unfolding civil_from_days_def Let_def assms by (rule refl)

lemma days_from_civil_march:
  assumes "0 \<le> mp" "mp < 10"
  shows "days_from_civil y0 (mp + 2) = year_days y0 + (153 * mp + 2) div 5 - 719468"
proof -
  have "\<not> mp + 2 < 2" using assms by simp
  then show ?thesis by (simp only: days_from_civil_alt if_False) simp
qed

lemma days_from_civil_jan:
  assumes "10 \<le> mp" "mp \<le> 11"
  shows "days_from_civil (y0 + 1) (mp - 10) = year_days y0 + (153 * mp + 2) div 5 - 719468"
proof -
  have "mp - 10 < 2" using assms by simp
  then show ?thesis by (simp only: days_from_civil_alt if_True) simp
qed

text \<open>
  The date that \<open>civil_from_days\<close> gives lies in a month 0..11, and the day number lies
  from the first day of that month up to the day before the first day of the next month.
\<close>

lemma civil_from_days_correct:
  assumes "civil_from_days z = (y, m, d)"
  shows "0 \<le> m \<and> m \<le> 11
       \<and> days_from_civil y m \<le> z
       \<and> z < days_from_civil (y + (m + 1) div 12) ((m + 1) mod 12)
       \<and> d = z - days_from_civil y m + 1"
proof -
  define era where "era = (z + 719468) div 146097"
  define doe where "doe = (z + 719468) mod 146097"
  define yoe where "yoe = (doe - doe div 1460 + doe div 36524 - doe div 146096) div 365"
  define doy where "doy = doe - (365 * yoe + yoe div 4 - yoe div 100)"
  define mp where "mp = (5 * doy + 2) div 153"
  define y0 where "y0 = yoe + era * 400"
  define ms where "ms = (153 * mp + 2) div 5"
  define ms' where "ms' = (153 * (mp + 1) + 2) div 5"
  have z: "z + 719468 = era * 146097 + doe"
    using mult_div_mod_eq [of 146097 "z + 719468"] by (simp add: era_def doe_def)
  have doe: "0 \<le> doe" "doe \<le> 146096" by (simp_all add: doe_def)
  have yr: "0 \<le> yoe" "yoe \<le> 399" "0 \<le> doy" "doy \<le> 365"
    and yn: "doe < (if yoe = 399 then 146097
            else 365 * (yoe + 1) + (yoe + 1) div 4 - (yoe + 1) div 100)"
    using year_of_era [OF doe yoe_def] by (simp_all add: doy_def)
  have mo: "0 \<le> mp" "mp \<le> 11" "ms \<le> doy" "doy < ms'"
    using month_of_year [OF yr(3,4) mp_def] by (simp_all add: ms_def ms'_def)
  have yd: "year_days y0 + doy = z + 719468"
    using year_days_era [OF yr(1,2), of era] z by (simp add: y0_def doy_def)
  have ydn: "z + 719468 < year_days (y0 + 1)"
    using year_days_era_next [OF yr(1,2), of era] yn z by (simp add: y0_def)
  have c: "(y, m, d)
       = (if (if mp < 10 then mp + 2 else mp - 10) < 2 then y0 + 1 else y0,
          if mp < 10 then mp + 2 else mp - 10,
          doy - ms + 1)"
    using civil_from_days_eq [OF era_def doe_def yoe_def doy_def mp_def, folded y0_def ms_def] assms
    by simp
  have d: "d = doy - ms + 1" using c by simp
  show ?thesis
  proof (cases "mp < 10")
    case True
    with mo have nlt: "\<not> mp + 2 < 2" by simp
    from c True nlt have ym: "y = y0" "m = mp + 2" by simp_all
    have first: "days_from_civil y m = year_days y0 + ms - 719468"
      unfolding ym ms_def using mo(1) True by (rule days_from_civil_march)
    have nx: "days_from_civil (y + (m + 1) div 12) ((m + 1) mod 12) = year_days y0 + ms' - 719468"
    proof (cases "mp = 9")
      case True
      have "days_from_civil (y0 + 1) (10 - 10) = year_days y0 + (153 * 10 + 2) div 5 - 719468"
        by (rule days_from_civil_jan) simp_all
      then show ?thesis using True by (simp add: ym ms'_def)
    next
      case False
      with \<open>mp < 10\<close> mo have r: "0 \<le> mp + 1" "mp + 1 < 10" by simp_all
      then have dm: "(mp + 2 + 1) div 12 = 0" "(mp + 2 + 1) mod 12 = mp + 1 + 2" by simp_all
      have "days_from_civil y0 (mp + 1 + 2) = year_days y0 + (153 * (mp + 1) + 2) div 5 - 719468"
        using r by (rule days_from_civil_march)
      then show ?thesis unfolding ym dm ms'_def by simp
    qed
    have rng: "0 \<le> m" "m \<le> 11" using mo True by (simp_all add: ym)
    have le: "days_from_civil y m \<le> z" using mo yd by (simp add: first)
    have lt: "z < days_from_civil (y + (m + 1) div 12) ((m + 1) mod 12)"
      using mo yd by (simp add: nx)
    have dd: "d = z - days_from_civil y m + 1" using yd d by (simp add: first)
    show ?thesis using rng le lt dd by simp
  next
    case False
    with mo have ge: "10 \<le> mp" and lt: "mp - 10 < 2" by simp_all
    from c False lt have ym: "y = y0 + 1" "m = mp - 10" by simp_all
    have first: "days_from_civil y m = year_days y0 + ms - 719468"
      unfolding ym ms_def using ge mo(2) by (rule days_from_civil_jan)
    have lt: "z < days_from_civil (y + (m + 1) div 12) ((m + 1) mod 12)"
    proof (cases "mp = 10")
      case True
      have "days_from_civil (y0 + 1) (11 - 10) = year_days y0 + (153 * 11 + 2) div 5 - 719468"
        by (rule days_from_civil_jan) simp_all
      then have "days_from_civil (y0 + 1) 1 = year_days y0 + ms' - 719468"
        using True by (simp add: ms'_def)
      then show ?thesis using True mo yd by (simp add: ym)
    next
      case False
      with ge mo have mp11: "mp = 11" by simp
      have "days_from_civil (y0 + 1) (0 + 2) = year_days (y0 + 1) + (153 * 0 + 2) div 5 - 719468"
        by (rule days_from_civil_march) simp_all
      then have "days_from_civil (y0 + 1) 2 = year_days (y0 + 1) - 719468" by simp
      then show ?thesis using mp11 ydn by (simp add: ym)
    qed
    have rng: "0 \<le> m" "m \<le> 11" using mo ge by (simp_all add: ym)
    have le: "days_from_civil y m \<le> z" using mo yd by (simp add: first)
    have dd: "d = z - days_from_civil y m + 1" using yd d by (simp add: first)
    show ?thesis using rng le lt dd by simp
  qed
qed

subsection \<open>The calendar of the platform is the Gregorian calendar\<close>

lemma mod_shift_eq:
  fixes y c n :: int
  assumes "1 < n" and "c mod n = 1"
  shows "(y - c) mod n = n - 1 \<longleftrightarrow> y mod n = 0"
proof -
  have "(y - c) mod n = (y mod n - c mod n) mod n" by (simp add: mod_diff_eq)
  also have "\<dots> = (y mod n - 1) mod n" by (simp add: assms(2))
  also have "\<dots> = (y - 1) mod n" by (simp add: mod_diff_left_eq)
  finally have e: "(y - c) mod n = (y - 1) mod n" .
  have b: "0 \<le> (y - 1) mod n" using assms(1) by simp
  have "y mod n = (if (y - 1) mod n = n - 1 then 0 else (y - 1) mod n + 1)"
    using mod_succ_int [OF assms(1), of "y - 1"] by simp
  with b show ?thesis unfolding e by (cases "(y - 1) mod n = n - 1") simp_all
qed

lemma spec_dayFromYear_step:
  "spec_dayFromYear (y + 1) = spec_dayFromYear y + 365 + (if isLeapYear y then 1 else 0)"
proof -
  define A where "A = (y - 1969) div 4"
  define B where "B = (y - 1901) div 100"
  define C where "C = (y - 1601) div 400"
  define p4 where "p4 \<longleftrightarrow> y mod 4 = 0"
  define p100 where "p100 \<longleftrightarrow> y mod 100 = 0"
  define p400 where "p400 \<longleftrightarrow> y mod 400 = 0"
  have a4: "(y - 1969) mod 4 = 4 - 1 \<longleftrightarrow> p4"
    unfolding p4_def by (rule mod_shift_eq) simp_all
  have a100: "(y - 1901) mod 100 = 100 - 1 \<longleftrightarrow> p100"
    unfolding p100_def by (rule mod_shift_eq) simp_all
  have a400: "(y - 1601) mod 400 = 400 - 1 \<longleftrightarrow> p400"
    unfolding p400_def by (rule mod_shift_eq) simp_all
  have s4: "(y - 1969 + 1) div 4 = A + (if p4 then 1 else 0)"
    unfolding A_def a4 [symmetric] by (rule div_succ_int) simp
  have s100: "(y - 1901 + 1) div 100 = B + (if p100 then 1 else 0)"
    unfolding B_def a100 [symmetric] by (rule div_succ_int) simp
  have s400: "(y - 1601 + 1) div 400 = C + (if p400 then 1 else 0)"
    unfolding C_def a400 [symmetric] by (rule div_succ_int) simp
  have e: "y + 1 - 1969 = y - 1969 + 1" "y + 1 - 1901 = y - 1901 + 1"
    "y + 1 - 1601 = y - 1601 + 1" "y + 1 - 1970 = y - 1970 + 1"
    by simp_all
  have c1: "p400 \<Longrightarrow> p100"
  proof -
    assume "p400"
    then have h: "y mod 400 = 0" by (simp add: p400_def)
    have "y mod 100 = (y mod 400) mod 100" by (simp add: mod_mod_cancel)
    with h show ?thesis by (simp add: p100_def)
  qed
  have c2: "p100 \<Longrightarrow> p4"
  proof -
    assume "p100"
    then have h: "y mod 100 = 0" by (simp add: p100_def)
    have "y mod 4 = (y mod 100) mod 4" by (simp add: mod_mod_cancel)
    with h show ?thesis by (simp add: p4_def)
  qed
  have L: "spec_dayFromYear y = 365 * (y - 1970) + A - B + C"
    by (simp only: spec_dayFromYear_def A_def B_def C_def)
  have R: "spec_dayFromYear (y + 1)
      = 365 * (y - 1970 + 1) + (A + (if p4 then 1 else 0)) - (B + (if p100 then 1 else 0))
        + (C + (if p400 then 1 else 0))"
    by (simp only: spec_dayFromYear_def e s4 s100 s400)
  have l: "isLeapYear y \<longleftrightarrow> p4 \<and> (\<not> p100 \<or> p400)"
    by (simp only: isLeapYear_def p4_def p100_def p400_def)
  show ?thesis
    unfolding L R l using c1 c2 by (cases p4; cases p100; cases p400) simp_all
qed

lemma days_from_civil_year_step:
  "days_from_civil (y + 1) 0 = days_from_civil y 0 + 365 + (if isLeapYear y then 1 else 0)"
  using year_days_diff [of "y - 1"] by (simp add: days_from_civil_alt)

text \<open>1 January of every year has the day number that the rules give it.\<close>

lemma spec_dayFromYear_eq: "spec_dayFromYear y = days_from_civil y 0"
proof (induction y rule: int_induct [where k = 1970])
  case base
  show ?case by (simp add: spec_dayFromYear_def days_from_civil_epoch)
next
  case (step1 i)
  then show ?case by (simp add: spec_dayFromYear_step days_from_civil_year_step)
next
  case (step2 i)
  have "spec_dayFromYear (i - 1 + 1) = spec_dayFromYear (i - 1) + 365
      + (if isLeapYear (i - 1) then 1 else 0)"
    by (rule spec_dayFromYear_step)
  moreover have "days_from_civil (i - 1 + 1) 0 = days_from_civil (i - 1) 0 + 365
      + (if isLeapYear (i - 1) then 1 else 0)"
    by (rule days_from_civil_year_step)
  ultimately show ?case using step2 by simp
qed

lemma spec_firstDayOfMonth_Suc:
  "0 \<le> m \<Longrightarrow> spec_firstDayOfMonth y (m + 1) = spec_firstDayOfMonth y m + daysInMonth y m"
  by (simp add: spec_firstDayOfMonth_def upto_rec2)

lemma MakeDay_Suc:
  assumes "0 \<le> m" "m < 12"
  shows "MakeDay y (m + 1) 1 = MakeDay y m 1 + daysInMonth y m"
proof -
  from assms have "m div 12 = 0" "m mod 12 = m" by simp_all
  then show ?thesis using month_length [OF assms, of y] by (simp add: MakeDay_def)
qed

text \<open>The first day of every month has the day number that the rules give it.\<close>

lemma spec_firstDayOfMonth_nat:
  "n \<le> 12 \<Longrightarrow> spec_firstDayOfMonth y (int n) = MakeDay y (int n) 1"
proof (induction n)
  case 0
  show ?case by (simp add: spec_firstDayOfMonth_def MakeDay_def spec_dayFromYear_eq)
next
  case (Suc n)
  then have n: "0 \<le> int n" "int n < 12" by simp_all
  have "spec_firstDayOfMonth y (int n + 1) = spec_firstDayOfMonth y (int n) + daysInMonth y (int n)"
    using n(1) by (rule spec_firstDayOfMonth_Suc)
  moreover have "MakeDay y (int n + 1) 1 = MakeDay y (int n) 1 + daysInMonth y (int n)"
    using n by (rule MakeDay_Suc)
  ultimately show ?case using Suc by (simp add: add.commute)
qed

lemma spec_firstDayOfMonth_eq:
  assumes "0 \<le> m" "m \<le> 12"
  shows "spec_firstDayOfMonth y m = MakeDay y m 1"
proof -
  from assms have "nat m \<le> 12" by simp
  then have "spec_firstDayOfMonth y (int (nat m)) = MakeDay y (int (nat m)) 1"
    by (rule spec_firstDayOfMonth_nat)
  with assms(1) show ?thesis by simp
qed

lemma MakeDay_norm: "MakeDay y m d = MakeDay 0 (12 * y + m) d"
proof -
  have "(12 * y + m) div 12 = y + m div 12" by simp
  moreover have "(12 * y + m) mod 12 = m mod 12" by simp
  ultimately show ?thesis by (simp add: MakeDay_def)
qed

lemma MakeDay_mono_nat: "MakeDay y m 1 < MakeDay y (m + 1 + int n) 1"
proof (induction n)
  case 0
  have e: "m + 1 + int 0 = m + 1" by simp
  show ?case unfolding e by (rule MakeDay_next_month)
next
  case (Suc n)
  have e: "m + 1 + int (Suc n) = (m + 1 + int n) + 1" by simp
  have "MakeDay y (m + 1 + int n) 1 < MakeDay y ((m + 1 + int n) + 1) 1"
    by (rule MakeDay_next_month)
  with Suc show ?case unfolding e by (rule less_trans)
qed

lemma MakeDay_strict_mono:
  assumes "a < b"
  shows "MakeDay y a 1 < MakeDay y b 1"
proof -
  from assms have "a + 1 + int (nat (b - a - 1)) = b" by simp
  then show ?thesis using MakeDay_mono_nat [of y a "nat (b - a - 1)"] by (simp only:)
qed

text \<open>A day lies in one month only.\<close>

lemma month_unique:
  assumes "0 \<le> m" "m \<le> 11" "0 \<le> m'" "m' \<le> 11"
    and "MakeDay y m 1 \<le> d" "d < MakeDay y (m + 1) 1"
    and "MakeDay y' m' 1 \<le> d" "d < MakeDay y' (m' + 1) 1"
  shows "y = y' \<and> m = m'"
proof -
  define k where "k = 12 * y + m"
  define k' where "k' = 12 * y' + m'"
  have g: "MakeDay 0 k 1 \<le> d" "d < MakeDay 0 (k + 1) 1"
    "MakeDay 0 k' 1 \<le> d" "d < MakeDay 0 (k' + 1) 1"
    using assms(5-8) MakeDay_norm [of y m 1] MakeDay_norm [of y "m + 1" 1]
      MakeDay_norm [of y' m' 1] MakeDay_norm [of y' "m' + 1" 1]
    by (simp_all add: k_def k'_def add.assoc)
  have "\<not> k < k'"
  proof
    assume "k < k'"
    then have "k + 1 = k' \<or> k + 1 < k'" by linarith
    then have "MakeDay 0 (k + 1) 1 \<le> MakeDay 0 k' 1"
      using MakeDay_strict_mono [of "k + 1" k' 0] by auto
    with g show False by linarith
  qed
  moreover have "\<not> k' < k"
  proof
    assume "k' < k"
    then have "k' + 1 = k \<or> k' + 1 < k" by linarith
    then have "MakeDay 0 (k' + 1) 1 \<le> MakeDay 0 k 1"
      using MakeDay_strict_mono [of "k' + 1" k 0] by auto
    with g show False by linarith
  qed
  ultimately have e: "12 * y + m = 12 * y' + m'" by (simp add: k_def k'_def)
  have "y = y'" using e assms(1-4) by linarith
  moreover from this e have "m = m'" by simp
  ultimately show ?thesis by simp
qed

text \<open>
  A local time in month \<open>m\<close> of year \<open>y\<close> by the rules has that year and that month for
  the platform.
\<close>

lemma YearMonthFromTime:
  assumes "0 \<le> m" "m \<le> 11" and "spec_inMonth y m x"
  shows "YearFromTime x = y \<and> MonthFromTime x = m"
proof -
  obtain y' m' d' where c: "civil_from_days (Day x) = (y', m', d')"
    by (cases "civil_from_days (Day x)") auto
  from civil_from_days_correct [OF c]
  have r: "0 \<le> m'" "m' \<le> 11" and le: "days_from_civil y' m' \<le> Day x"
    and lt: "Day x < days_from_civil (y' + (m' + 1) div 12) ((m' + 1) mod 12)"
    by simp_all
  have m12: "m' div 12 = 0" "m' mod 12 = m'" using r by simp_all
  have 1: "MakeDay y' m' 1 \<le> Day x" "Day x < MakeDay y' (m' + 1) 1"
    using le lt by (simp_all add: MakeDay_def m12)
  have f: "spec_firstDayOfMonth y m = MakeDay y m 1"
    "spec_firstDayOfMonth y (m + 1) = MakeDay y (m + 1) 1"
    using assms(1,2) by (simp_all add: spec_firstDayOfMonth_eq)
  define u where "u = x mod 86400000"
  have x: "x = Day x * 86400000 + u" "0 \<le> u" "u < 86400000"
    by (simp_all add: Day_def msPerDay_def u_def)
  from assms(3) have h: "MakeDay y m 1 * 86400000 \<le> x" "x < MakeDay y (m + 1) 1 * 86400000"
    by (simp_all add: spec_inMonth_def f)
  have 2: "MakeDay y m 1 \<le> Day x"
  proof (rule ccontr)
    assume "\<not> MakeDay y m 1 \<le> Day x"
    then have "Day x + 1 \<le> MakeDay y m 1" by simp
    then have "(Day x + 1) * 86400000 \<le> MakeDay y m 1 * 86400000" by simp
    with h(1) x show False by (simp add: algebra_simps)
  qed
  have 3: "Day x < MakeDay y (m + 1) 1"
  proof (rule ccontr)
    assume "\<not> Day x < MakeDay y (m + 1) 1"
    then have "MakeDay y (m + 1) 1 * 86400000 \<le> Day x * 86400000" by simp
    with h(2) x show False by simp
  qed
  from month_unique [OF assms(1,2) r 2 3 1] have "y = y'" "m = m'" by simp_all
  then show ?thesis by (simp add: YearFromTime_def MonthFromTime_def c)
qed

subsection \<open>The month window\<close>

lemma Day_MakeDate:
  assumes "0 \<le> u" "u < 86400000"
  shows "Day (MakeDate d u) = d"
  unfolding Day_def MakeDate_def msPerDay_def
  by (rule int_div_pos_eq [of _ _ _ u]) (use assms in simp_all)

lemma TimeWithinDay_bounds: "0 \<le> TimeWithinDay t" "TimeWithinDay t < 86400000"
  by (simp_all add: TimeWithinDay_def msPerDay_def)

lemma zoneKeepsDay_Day: "zoneKeepsDay z \<Longrightarrow> Day (LocalTime z (UTC z x)) = Day x"
  by (simp add: zoneKeepsDay_def Day_def LocalTime_def UTC_def msPerDay_def)

text \<open>
  In a zone that keeps the day, the window that the two library calls compute is the
  window of the current month by the rules of the calendar: from local midnight of its
  first day to the millisecond before local midnight of the first day of the next month.
\<close>

lemma startOfMonth_spec:
  assumes "zoneKeepsDay z" and "spec_currentMonth z now y m"
  shows "startOfMonth z now = spec_firstInstant z y m"
proof -
  from assms(2) have m: "0 \<le> m" "m \<le> 11" and i: "spec_inMonth y m (LocalTime z now)"
    by (simp_all add: spec_currentMonth_def LocalTime_def)
  from YearMonthFromTime [OF m i]
  have ym: "YearFromTime (LocalTime z now) = y" "MonthFromTime (LocalTime z now) = m"
    by simp_all
  define x1 where "x1 = MakeDate (MakeDay y m 1) (TimeWithinDay (LocalTime z now))"
  have s: "setDate z now 1 = UTC z x1"
    by (simp add: setDate_def Let_def ym x1_def)
  have "Day (LocalTime z (UTC z x1)) = Day x1"
    using assms(1) by (rule zoneKeepsDay_Day)
  also have "\<dots> = MakeDay y m 1"
    unfolding x1_def by (rule Day_MakeDate) (rule TimeWithinDay_bounds)+
  finally have d: "Day (LocalTime z (setDate z now 1)) = MakeDay y m 1"
    by (simp add: s)
  have f: "spec_firstDayOfMonth y m = MakeDay y m 1"
    using m by (simp add: spec_firstDayOfMonth_eq)
  show ?thesis
    by (simp add: startOfMonth_def setHours_def Let_def d MakeDate_def MakeTime_def
        UTC_def spec_firstInstant_def f msPerDay_def)
qed

lemma endOfMonth_spec:
  assumes "zoneKeepsDay z" and "spec_currentMonth z now y m"
  shows "endOfMonth z now = spec_lastInstant z y m"
proof -
  from assms(2) have m: "0 \<le> m" "m \<le> 11" and i: "spec_inMonth y m (LocalTime z now)"
    by (simp_all add: spec_currentMonth_def LocalTime_def)
  from YearMonthFromTime [OF m i]
  have ym: "getFullYear z now = y" "getMonth z now = m"
    by (simp_all add: getFullYear_def getMonth_def)
  define x1 where "x1 = MakeDate (MakeDay y (m + 1) 0) (TimeWithinDay (LocalTime z now))"
  have s: "setFullYear z now y (m + 1) 0 = UTC z x1"
    by (simp add: setFullYear_def Let_def x1_def)
  have "Day (LocalTime z (UTC z x1)) = Day x1"
    using assms(1) by (rule zoneKeepsDay_Day)
  also have "\<dots> = MakeDay y (m + 1) 0"
    unfolding x1_def by (rule Day_MakeDate) (rule TimeWithinDay_bounds)+
  finally have d: "Day (LocalTime z (setFullYear z now y (m + 1) 0)) = MakeDay y (m + 1) 1 - 1"
    by (simp add: s MakeDay_def)
  have f: "spec_firstDayOfMonth y (m + 1) = MakeDay y (m + 1) 1"
    using m by (simp add: spec_firstDayOfMonth_eq)
  have x2: "MakeDate (Day (LocalTime z (setFullYear z now y (m + 1) 0))) (MakeTime 23 59 59 999)
      = spec_firstDayOfMonth y (m + 1) * 86400000 - 1"
    unfolding d f MakeDate_def MakeTime_def msPerDay_def by (simp add: algebra_simps)
  show ?thesis
    by (simp only: endOfMonth_def Let_def ym setHours_def x2 UTC_def spec_lastInstant_def)
qed

text \<open>The month has days: its first instant is not after its last.\<close>

lemma firstInstant_le_lastInstant:
  assumes "zoneWithinDay z" and "0 \<le> m" "m \<le> 11"
  shows "spec_firstInstant z y m \<le> spec_lastInstant z y m"
proof -
  define a where "a = spec_firstDayOfMonth y m"
  define b where "b = spec_firstDayOfMonth y (m + 1)"
  have "b = a + daysInMonth y m"
    unfolding a_def b_def using assms(2) by (rule spec_firstDayOfMonth_Suc)
  moreover have "28 \<le> daysInMonth y m" by (simp add: daysInMonth_def)
  ultimately have "a + 28 \<le> b" by simp
  then have ab: "a * 86400000 + 28 * 86400000 \<le> b * 86400000" by simp
  have o: "\<bar>offsetAtLocal z (a * 86400000)\<bar> \<le> 86400000"
    "\<bar>offsetAtLocal z (b * 86400000 - 1)\<bar> \<le> 86400000"
    using assms(1) by (simp_all add: zoneWithinDay_def)
  show ?thesis
    unfolding spec_firstInstant_def spec_lastInstant_def a_def [symmetric] b_def [symmetric]
    using ab o by linarith
qed

text \<open>The instant of the clock lies in the window of the current month, in such a zone.\<close>

lemma isWithinInterval_spec:
  assumes "zoneKeepsDay z" and "spec_currentMonth z now y m"
  shows "isWithinInterval d (startOfMonth z now) (endOfMonth z now) = spec_inMonthWindow z y m d"
  by (cases d)
    (simp_all add: startOfMonth_spec [OF assms] endOfMonth_spec [OF assms] spec_inMonthWindow_def)

text \<open>Every instant has its month: the hypothesis on the clock can always be met.\<close>

lemma currentMonth_exists: "\<exists>y m. spec_currentMonth z now y m"
proof -
  define x where "x = now + offsetAtUTC z now"
  obtain y m d where c: "civil_from_days (Day x) = (y, m, d)"
    by (cases "civil_from_days (Day x)") auto
  from civil_from_days_correct [OF c]
  have m: "0 \<le> m" "m \<le> 11" and le: "days_from_civil y m \<le> Day x"
    and lt: "Day x < days_from_civil (y + (m + 1) div 12) ((m + 1) mod 12)"
    by simp_all
  have m0: "m div 12 = 0" "m mod 12 = m" using m by simp_all
  have a: "spec_firstDayOfMonth y m = days_from_civil y m"
    using m by (simp add: spec_firstDayOfMonth_eq MakeDay_def m0)
  have b: "spec_firstDayOfMonth y (m + 1) = days_from_civil (y + (m + 1) div 12) ((m + 1) mod 12)"
    using m by (simp add: spec_firstDayOfMonth_eq MakeDay_def)
  have l: "spec_firstDayOfMonth y m * 86400000 \<le> x"
  proof -
    have "spec_firstDayOfMonth y m * 86400000 \<le> (x div 86400000) * 86400000"
      using le unfolding a Day_def msPerDay_def by simp
    also have "\<dots> \<le> x"
      by (simp add: minus_mod_eq_div_mult [symmetric])
    finally show ?thesis .
  qed
  have u: "x < spec_firstDayOfMonth y (m + 1) * 86400000"
  proof -
    have "x div 86400000 + 1 \<le> spec_firstDayOfMonth y (m + 1)"
      using lt unfolding b Day_def msPerDay_def by simp
    then have "(x div 86400000 + 1) * 86400000 \<le> spec_firstDayOfMonth y (m + 1) * 86400000"
      by simp
    moreover have "x < (x div 86400000 + 1) * 86400000"
    proof -
      have "x = (x div 86400000) * 86400000 + x mod 86400000" by simp
      moreover have "x mod 86400000 < 86400000" by simp
      ultimately show ?thesis by (simp add: distrib_right)
    qed
    ultimately show ?thesis by (rule less_le_trans [rotated])
  qed
  have "spec_currentMonth z now y m"
    using m l u by (simp add: spec_currentMonth_def spec_inMonth_def x_def)
  then show ?thesis by blast
qed

subsection \<open>The zones of the examples\<close>

lemma zone_kolkata_ok: "zoneKeepsDay zone_kolkata" "zoneWithinDay zone_kolkata"
  by (simp_all add: zoneKeepsDay_def zoneWithinDay_def zone_kolkata_def)

lemma div_const_between:
  fixes x :: int
  assumes "c * 86400000 \<le> x" "x < c * 86400000 + 86400000"
  shows "x div 86400000 = c"
  by (rule int_div_pos_eq [of _ _ _ "x - c * 86400000"]) (use assms in simp_all)

text \<open>
  New York keeps the day: the local times from 02:00 to 03:00 of 9 March, which do not
  occur, are read as the hour after, still on 9 March (day 20156).
\<close>

lemma zone_ny_ok: "zoneKeepsDay zone_ny" "zoneWithinDay zone_ny"
proof -
  have "(x - offsetAtLocal zone_ny x + offsetAtUTC zone_ny (x - offsetAtLocal zone_ny x))
          div 86400000 = x div 86400000" for x
  proof (cases "1741485600000 \<le> x \<and> x < 1741489200000")
    case True
    then have e: "x - offsetAtLocal zone_ny x + offsetAtUTC zone_ny (x - offsetAtLocal zone_ny x)
        = x + 3600000"
      by (simp add: zone_ny_def)
    have "x div 86400000 = 20156" using True by (intro div_const_between) simp_all
    moreover have "(x + 3600000) div 86400000 = 20156"
      using True by (intro div_const_between) simp_all
    ultimately show ?thesis by (simp only: e)
  next
    case False
    then have "x - offsetAtLocal zone_ny x + offsetAtUTC zone_ny (x - offsetAtLocal zone_ny x) = x"
      by (simp add: zone_ny_def)
    then show ?thesis by (simp only:)
  qed
  then show "zoneKeepsDay zone_ny" by (simp only: zoneKeepsDay_def) simp
  show "zoneWithinDay zone_ny" by (simp add: zoneWithinDay_def zone_ny_def)
qed

text \<open>March 2025 is the current month in New York, August 2025 in Kolkata.\<close>

lemma currentMonth_ny: "spec_currentMonth zone_ny now_ny 2025 2"
  by code_simp

lemma currentMonth_kolkata: "spec_currentMonth zone_kolkata now_ex 2025 7"
  by code_simp

text \<open>
  The window of March 2025 in New York runs from 1 March 05:00 UTC, when the offset was
  five hours, to 1 April 03:59:59.999 UTC, when it was four.
\<close>

lemma window_ny:
  "spec_firstInstant zone_ny 2025 2 = 1740805200000"
  "spec_lastInstant zone_ny 2025 2 = 1743479999999"
  by code_simp+

lemma window_kolkata:
  "spec_firstInstant zone_kolkata 2025 7 = 1753986600000"
  "spec_lastInstant zone_kolkata 2025 7 = 1756664999999"
  by code_simp+

lemma startOfMonth_ny: "startOfMonth zone_ny now_ny = 1740805200000"
  by code_simp

lemma endOfMonth_ny: "endOfMonth zone_ny now_ny = 1743479999999"
  by code_simp

subsection \<open>Rounding keeps the sign\<close>

lemma floorlog2_le:
  assumes "0 < a"
  shows "2 powi (floorlog2 a) \<le> a"
proof -
  obtain p d where q: "quotient_of a = (p, d)" by (cases "quotient_of a")
  have d: "0 < d" using q by (rule quotient_of_denom_pos)
  have a: "a = of_int p / of_int d" using q by (rule quotient_of_div)
  have p: "0 < p" using assms d by (simp add: a zero_less_divide_iff)
  define k where "k = bitlen p - bitlen d"
  have bp: "2 ^ nat (bitlen p - 1) \<le> p" using bitlen_bounds [OF p] by simp
  have bd: "d < 2 ^ nat (bitlen d)" using bitlen_bounds [OF d] by simp
  have p1: "1 \<le> bitlen p"
  proof (rule ccontr)
    assume "\<not> 1 \<le> bitlen p"
    then have "nat (bitlen p) = 0" by simp
    then have "p < 1" using bitlen_bounds [OF p] by simp
    then show False using p by simp
  qed
  have d0: "0 \<le> bitlen d" by (rule bitlen_nonneg)
  have "2 powi (k - 1) \<le> a"
  proof -
    have "(2::rat) powi (k - 1) = 2 powi (bitlen p - 1) / 2 powi (bitlen d)"
      by (simp add: k_def power_int_diff [symmetric] algebra_simps)
    also have "\<dots> = 2 ^ nat (bitlen p - 1) / 2 ^ nat (bitlen d)"
      using p1 d0 by (simp add: power_int_nonneg_exp)
    also have "\<dots> \<le> of_int p / 2 ^ nat (bitlen d)"
    proof -
      have "(of_int (2 ^ nat (bitlen p - 1)) :: rat) \<le> of_int p"
        using bp by (simp only: of_int_le_iff)
      then show ?thesis by (simp add: divide_right_mono)
    qed
    also have "\<dots> \<le> of_int p / of_int d"
    proof -
      have "(of_int d :: rat) \<le> of_int (2 ^ nat (bitlen d))"
        using bd by (simp only: of_int_le_iff)
      then have "(of_int d :: rat) \<le> 2 ^ nat (bitlen d)" by simp
      then show ?thesis using p d by (simp add: divide_left_mono)
    qed
    finally show ?thesis by (simp add: a)
  qed
  then show ?thesis
    using q by (simp add: floorlog2_def Let_def k_def)
qed

lemma round_half_even_ge1:
  assumes "1 \<le> q"
  shows "1 \<le> round_half_even q"
proof -
  have "1 \<le> \<lfloor>q\<rfloor>" using assms by simp
  then show ?thesis by (simp add: round_half_even_def Let_def)
qed

lemma round_half_even_nonneg:
  assumes "0 \<le> q"
  shows "0 \<le> round_half_even q"
proof -
  have "0 \<le> \<lfloor>q\<rfloor>" using assms by simp
  then show ?thesis by (simp add: round_half_even_def Let_def)
qed

lemma grid_mult:
  assumes "- 1074 \<le> e"
  shows "of_int n * (2::rat) powi e * 2 ^ 1074 \<in> \<int>"
proof -
  have "(2::rat) powi e * 2 ^ 1074 = 2 powi e * 2 powi 1074"
    by (simp only: power_int_numeral)
  also have "\<dots> = 2 powi (e + 1074)"
    by (simp add: power_int_add)
  also have "\<dots> = 2 ^ nat (e + 1074)"
    using assms by (simp add: power_int_nonneg_exp)
  finally have "of_int n * (2::rat) powi e * 2 ^ 1074 = of_int (n * 2 ^ nat (e + 1074))"
    by (simp only: mult.assoc of_int_mult of_int_power of_int_numeral)
  then show ?thesis by (simp only: Ints_of_int)
qed

lemma round_double_cases:
  obtains "x = 0" "round_double x = Num 0"
  | n e where "x \<noteq> 0" "- 1074 \<le> e"
      "e = max (floorlog2 \<bar>x\<bar> - 52) (- 1074)"
      "n = round_half_even (\<bar>x\<bar> / 2 powi e)"
      "round_double x =
         (if 2 ^ 1024 \<le> of_int n * (2::rat) powi e
          then (if 0 < x then PosInfinity else NegInfinity)
          else if of_int n * (2::rat) powi e = 0 then (if 0 < x then Num 0 else NegZero)
          else Num (if 0 < x then of_int n * 2 powi e else - (of_int n * 2 powi e)))"
proof (cases "x = 0")
  case True
  then have "round_double x = Num 0" by (simp add: round_double_def)
  with True show ?thesis by (rule that(1))
next
  case False
  define e where "e = max (floorlog2 \<bar>x\<bar> - 52) (- 1074)"
  define n where "n = round_half_even (\<bar>x\<bar> / 2 powi e)"
  have e: "- 1074 \<le> e" by (simp add: e_def)
  have "round_double x =
         (if 2 ^ 1024 \<le> of_int n * (2::rat) powi e
          then (if 0 < x then PosInfinity else NegInfinity)
          else if of_int n * (2::rat) powi e = 0 then (if 0 < x then Num 0 else NegZero)
          else Num (if 0 < x then of_int n * 2 powi e else - (of_int n * 2 powi e)))"
    unfolding round_double_def Let_def n_def e_def using False by (simp only: if_False)
  with False e e_def n_def show ?thesis by (rule that(2))
qed

lemma round_double_onGrid: "onGrid (round_double x)"
proof (cases x rule: round_double_cases)
  case 1
  then show ?thesis by simp
next
  case (2 n e)
  have g: "of_int n * (2::rat) powi e * 2 ^ 1074 \<in> \<int>"
    using 2(2) by (rule grid_mult)
  have g': "- (of_int n * (2::rat) powi e) * 2 ^ 1074 \<in> \<int>"
    using Ints_minus [OF g] by (simp only: mult_minus_left)
  show ?thesis
    unfolding 2(5) using g g' by (simp only: onGrid.simps split: if_splits) simp
qed

lemma grid_pos_ge:
  assumes "a * 2 ^ 1074 \<in> \<int>" and "0 < (a::rat)"
  shows "2 powi (- 1074) \<le> a"
proof -
  have "a * 2 ^ 1074 \<noteq> 0" using assms(2) by simp
  then have "1 \<le> \<bar>a * 2 ^ 1074\<bar>" using assms(1) by (rule Ints_nonzero_abs_ge1 [rotated])
  then have "1 \<le> a * 2 ^ 1074" using assms(2) by (simp only: abs_of_pos zero_less_mult_iff zero_less_power zero_less_numeral simp_thms)
  then have "1 / 2 ^ 1074 \<le> a" by (simp only: pos_divide_le_eq zero_less_power zero_less_numeral)
  moreover have "(2::rat) powi (- 1074) = 1 / 2 ^ 1074"
    by (simp only: power_int_minus power_int_numeral inverse_eq_divide)
  ultimately show ?thesis by (simp only:)
qed

lemma ulp_le:
  assumes "a * 2 ^ 1074 \<in> \<int>" and "0 < (a::rat)"
  shows "2 powi (max (floorlog2 a - 52) (- 1074)) \<le> a"
proof (cases "floorlog2 a - 52 \<le> - 1074")
  case True
  then have "max (floorlog2 a - 52) (- 1074) = - 1074" by (simp only: max_def if_True)
  then show ?thesis using grid_pos_ge [OF assms] by (simp only:)
next
  case False
  then have m: "max (floorlog2 a - 52) (- 1074) = floorlog2 a - 52" by (simp only: max_def if_False)
  have "(2::rat) powi (floorlog2 a - 52) \<le> 2 powi (floorlog2 a)"
    by (rule power_int_increasing) simp_all
  also have "\<dots> \<le> a" using assms(2) by (rule floorlog2_le)
  finally show ?thesis by (simp only: m)
qed

lemma round_double_neg:
  assumes "x * 2 ^ 1074 \<in> \<int>" and "x < 0"
  shows "js_lt (round_double x) (Num 0)"
proof (cases x rule: round_double_cases)
  case 1
  then show ?thesis using assms(2) by simp
next
  case (2 n e)
  have a: "0 < \<bar>x\<bar>" using assms(2) by simp
  have "\<bar>x\<bar> * 2 ^ 1074 = - (x * 2 ^ 1074)" using assms(2) by simp
  then have g: "\<bar>x\<bar> * 2 ^ 1074 \<in> \<int>" using Ints_minus [OF assms(1)] by (simp only:)
  have u: "2 powi e \<le> \<bar>x\<bar>" using ulp_le [OF g a] by (simp only: 2(3))
  have p: "0 < (2::rat) powi e" by simp
  have "1 \<le> \<bar>x\<bar> / 2 powi e" using u p by (simp only: pos_le_divide_eq mult_1)
  then have "1 \<le> n" unfolding 2(4) by (rule round_half_even_ge1)
  then have "0 < (of_int n :: rat)" by simp
  then have r: "0 < of_int n * (2::rat) powi e" using p by (simp only: zero_less_mult_iff simp_thms)
  have nx: "\<not> 0 < x" using assms(2) by simp
  have r0: "of_int n * (2::rat) powi e \<noteq> 0" using r by (simp only: less_imp_neq [THEN not_sym] not_False_eq_True)
  show ?thesis
    unfolding 2(5) using r r0 nx by (simp only: if_False js_lt.simps js_val.simps neg_less_0_iff_less split: if_splits) simp
qed

lemma round_double_nonneg:
  assumes "0 \<le> x"
  shows "\<not> js_lt (round_double x) (Num 0)"
proof (cases x rule: round_double_cases)
  case 1
  then show ?thesis by simp
next
  case (2 n e)
  have x: "0 < x" using assms 2(1) by simp
  have p: "0 < (2::rat) powi e" by simp
  have "0 \<le> \<bar>x\<bar> / 2 powi e" by simp
  then have "0 \<le> n" unfolding 2(4) by (rule round_half_even_nonneg)
  then have "0 \<le> (of_int n :: rat)" by simp
  then have r: "0 \<le> of_int n * (2::rat) powi e" using p by (simp only: zero_le_mult_iff less_imp_le simp_thms)
  show ?thesis
    unfolding 2(5) using r x by (simp split: if_splits)
qed

lemma round_double_lt0:
  assumes "x * 2 ^ 1074 \<in> \<int>"
  shows "js_lt (round_double x) (Num 0) = (x < 0)"
  using round_double_neg [OF assms] round_double_nonneg [of x] by (cases "x < 0") simp_all

lemma js_num_onGrid: "onGrid (js_num x)"
  by (simp add: js_num_def round_double_onGrid)

lemma js_add_onGrid:
  assumes "onGrid x" and "onGrid y"
  shows "onGrid (js_add x y)"
  using assms by (cases x; cases y) (simp_all add: round_double_onGrid)

lemma foldl_onGrid:
  assumes "onGrid acc"
  shows "onGrid (foldl (\<lambda>sum e. js_add sum (js_num (f e))) acc xs)"
  using assms
proof (induction xs arbitrary: acc)
  case Nil
  then show ?case by simp
next
  case (Cons e xs)
  have "onGrid (js_add acc (js_num (f e)))"
    using Cons.prems js_num_onGrid by (rule js_add_onGrid)
  then show ?case using Cons.IH by simp
qed

lemma reduce_amount_onGrid: "onGrid (reduce_amount xs)"
  unfolding reduce_amount_def by (rule foldl_onGrid) simp

lemma grid_diff:
  assumes "a * 2 ^ 1074 \<in> \<int>" and "s * 2 ^ 1074 \<in> \<int>"
  shows "(a + - s) * 2 ^ 1074 \<in> (\<int> :: rat set)"
proof -
  have "(a + - s) * 2 ^ 1074 = a * 2 ^ 1074 - s * 2 ^ 1074"
    by (simp only: distrib_right mult_minus_left diff_conv_add_uminus)
  then show ?thesis using Ints_diff [OF assms] by (simp only:)
qed

lemma js_sub_Num:
  assumes "a * 2 ^ 1074 \<in> \<int>" and "s * 2 ^ 1074 \<in> \<int>"
  shows "js_lt (js_sub (Num a) (Num s)) (Num 0) = (a < s)"
proof (cases "s = 0")
  case True
  then show ?thesis by (simp add: js_sub_def)
next
  case False
  have "js_lt (round_double (a + - s)) (Num 0) = (a + - s < 0)"
    using grid_diff [OF assms] by (rule round_double_lt0)
  then show ?thesis using False by (simp add: js_sub_def)
qed

lemma js_sub_lt0:
  assumes "onGrid A" and "onGrid S"
  shows "js_lt (js_sub A S) (Num 0) = js_lt A S"
proof (cases A)
  case (Num a)
  show ?thesis
  proof (cases S)
    case (Num s)
    then show ?thesis using assms \<open>A = Num a\<close> by (simp add: js_sub_Num)
  next
    case NegZero
    have "js_lt (round_double a) (Num 0) = (a < 0)"
      using assms(1) \<open>A = Num a\<close> by (simp add: round_double_lt0)
    then show ?thesis using NegZero \<open>A = Num a\<close> by (simp add: js_sub_def)
  qed (simp_all add: \<open>A = Num a\<close> js_sub_def)
next
  case NegZero
  then show ?thesis by (cases S) (simp_all add: js_sub_def)
next
  case PosInfinity
  then show ?thesis by (cases S) (simp_all add: js_sub_def)
next
  case NegInfinity
  then show ?thesis by (cases S) (simp_all add: js_sub_def)
next
  case NaN
  then show ?thesis by (cases S) (simp_all add: js_sub_def)
qed

subsection \<open>Rounding by hand\<close>

lemma floorlog2_gt:
  assumes "0 < a"
  shows "a < 2 powi (floorlog2 a + 1)"
proof -
  obtain p d where q: "quotient_of a = (p, d)" by (cases "quotient_of a")
  have d: "0 < d" using q by (rule quotient_of_denom_pos)
  have a: "a = of_int p / of_int d" using q by (rule quotient_of_div)
  have p: "0 < p" using assms d by (simp add: a zero_less_divide_iff)
  define k where "k = bitlen p - bitlen d"
  have bp: "p < 2 ^ nat (bitlen p)" using bitlen_bounds [OF p] by simp
  have bd: "2 ^ nat (bitlen d - 1) \<le> d" using bitlen_bounds [OF d] by simp
  have p0: "0 \<le> bitlen p" by (rule bitlen_nonneg)
  have d1: "1 \<le> bitlen d"
  proof (rule ccontr)
    assume "\<not> 1 \<le> bitlen d"
    then have "nat (bitlen d) = 0" by simp
    then have "d < 1" using bitlen_bounds [OF d] by simp
    then show False using d by simp
  qed
  have "a < 2 powi (k + 1)"
  proof -
    have "a = of_int p / of_int d" by (rule a)
    also have "\<dots> < 2 ^ nat (bitlen p) / of_int d"
    proof -
      have "(of_int p :: rat) < of_int (2 ^ nat (bitlen p))"
        using bp by (simp only: of_int_less_iff)
      then show ?thesis using d by (simp add: divide_strict_right_mono)
    qed
    also have "\<dots> \<le> 2 ^ nat (bitlen p) / 2 ^ nat (bitlen d - 1)"
    proof -
      have "(of_int (2 ^ nat (bitlen d - 1)) :: rat) \<le> of_int d"
        using bd by (simp only: of_int_le_iff)
      then have h: "(2 ^ nat (bitlen d - 1) :: rat) \<le> of_int d"
        by (simp only: of_int_power of_int_numeral)
      show ?thesis using h
      proof (rule divide_left_mono)
        show "0 \<le> (2::rat) ^ nat (bitlen p)" by simp
        show "0 < (of_int d :: rat) * 2 ^ nat (bitlen d - 1)" using d by simp
      qed
    qed
    also have "\<dots> = 2 powi (bitlen p) / 2 powi (bitlen d - 1)"
      using p0 d1 by (simp add: power_int_nonneg_exp)
    also have "\<dots> = 2 powi (k + 1)"
      by (simp add: k_def power_int_diff [symmetric] algebra_simps)
    finally show ?thesis .
  qed
  moreover have "\<not> 2 powi k \<le> a \<Longrightarrow> a < 2 powi k" by simp
  ultimately show ?thesis
    using q by (simp add: floorlog2_def Let_def k_def)
qed

lemma floorlog2_unique:
  assumes "2 powi L \<le> a" and "a < 2 powi (L + 1)"
  shows "floorlog2 a = L"
proof -
  have a: "0 < a" using assms(1) by (rule less_le_trans [rotated]) simp
  have l: "2 powi (floorlog2 a) \<le> a" using a by (rule floorlog2_le)
  have g: "a < 2 powi (floorlog2 a + 1)" using a by (rule floorlog2_gt)
  have "\<not> floorlog2 a < L"
  proof
    assume "floorlog2 a < L"
    then have "floorlog2 a + 1 \<le> L" by simp
    then have "(2::rat) powi (floorlog2 a + 1) \<le> 2 powi L"
      by (rule power_int_increasing) simp
    then show False using g assms(1) by simp
  qed
  moreover have "\<not> L < floorlog2 a"
  proof
    assume "L < floorlog2 a"
    then have "L + 1 \<le> floorlog2 a" by simp
    then have "(2::rat) powi (L + 1) \<le> 2 powi (floorlog2 a)"
      by (rule power_int_increasing) simp
    then show False using l assms(2) by simp
  qed
  ultimately show ?thesis by simp
qed

lemma round_half_even_of_int: "round_half_even (of_int n) = n"
  by (simp add: round_half_even_def Let_def)

text \<open>
  A value in the normal range, between \<open>2 ^ L\<close> and \<open>2 ^ (L + 1)\<close>, rounds to a multiple
  of \<open>2 ^ (L - 52)\<close>.
\<close>

lemma round_double_normal:
  assumes "2 powi L \<le> \<bar>x\<bar>" and "\<bar>x\<bar> < 2 powi (L + 1)" and "- 1022 \<le> L"
    and "round_half_even (\<bar>x\<bar> / 2 powi (L - 52)) = n"
    and "of_int n * 2 powi (L - 52) < (2::rat) ^ 1024"
  shows "round_double x
           = Num (if 0 < x then of_int n * 2 powi (L - 52) else - (of_int n * 2 powi (L - 52)))"
proof (cases x rule: round_double_cases)
  case 1
  have "0 < (2::rat) powi L" by simp
  then have "\<not> 2 powi L \<le> \<bar>x\<bar>" unfolding 1(1) by (simp only: abs_zero not_le)
  then show ?thesis using assms(1) by (rule notE)
next
  case (2 n' e)
  have f: "floorlog2 \<bar>x\<bar> = L" using assms(1,2) by (rule floorlog2_unique)
  have e: "e = L - 52" using assms(3) by (simp add: 2(3) f)
  have n: "n' = n" using assms(4) by (simp add: 2(4) e)
  have p: "0 < (2::rat) powi (L - 52)" by simp
  have "(2::rat) powi (L - 52) \<le> 2 powi L" by (rule power_int_increasing) simp_all
  then have "2 powi (L - 52) \<le> \<bar>x\<bar>" using assms(1) by (rule order_trans)
  then have "1 \<le> \<bar>x\<bar> / 2 powi (L - 52)" using p by (simp only: pos_le_divide_eq mult_1)
  then have "1 \<le> n" unfolding assms(4) [symmetric] by (rule round_half_even_ge1)
  then have "0 < (of_int n :: rat)" by simp
  then have r: "0 < of_int n * (2::rat) powi (L - 52)" using p by (simp only: zero_less_mult_iff simp_thms)
  then have r0: "of_int n * (2::rat) powi (L - 52) \<noteq> 0" by (simp only: less_imp_neq [THEN not_sym] not_False_eq_True)
  have b: "\<not> 2 ^ 1024 \<le> of_int n * (2::rat) powi (L - 52)" using assms(5) by (simp only: not_le)
  show ?thesis
    unfolding 2(5) e n using b r0 by (simp only: if_False)
qed

text \<open>A whole number below \<open>2 ^ 53\<close> in absolute value is a binary64 value.\<close>

lemma round_double_of_int:
  assumes "\<bar>n\<bar> < 2 ^ 53"
  shows "round_double (of_int n) = Num (of_int n)"
proof (cases "n = 0")
  case True
  then show ?thesis by (simp add: round_double_def)
next
  case False
  define a :: rat where "a = \<bar>of_int n\<bar>"
  define L where "L = floorlog2 a"
  define k where "k = nat (52 - L)"
  have a1: "1 \<le> a"
  proof -
    have "1 \<le> \<bar>n\<bar>" using False by simp
    then have "(of_int 1 :: rat) \<le> of_int \<bar>n\<bar>" by (simp only: of_int_le_iff)
    then show ?thesis by (simp add: a_def)
  qed
  have a53: "a < 2 ^ 53"
  proof -
    have "(of_int \<bar>n\<bar> :: rat) < of_int (2 ^ 53)" using assms by (simp only: of_int_less_iff)
    then show ?thesis by (simp add: a_def)
  qed
  have a0: "0 < a" using a1 by simp
  have l: "2 powi L \<le> a" unfolding L_def using a0 by (rule floorlog2_le)
  have g: "a < 2 powi (L + 1)" unfolding L_def using a0 by (rule floorlog2_gt)
  have L0: "0 \<le> L"
  proof (rule ccontr)
    assume "\<not> 0 \<le> L"
    then have "L + 1 \<le> 0" by simp
    then have "(2::rat) powi (L + 1) \<le> 2 powi 0" by (rule power_int_increasing) simp
    then show False using g a1 by simp
  qed
  have L52: "L \<le> 52"
  proof (rule ccontr)
    assume "\<not> L \<le> 52"
    then have "53 \<le> L" by simp
    then have "(2::rat) powi 53 \<le> 2 powi L" by (rule power_int_increasing) simp
    then have "(2::rat) ^ 53 \<le> 2 powi L" by (simp only: power_int_numeral)
    then show False using l a53 by simp
  qed
  have u: "(2::rat) powi (L - 52) = 1 / 2 ^ k"
  proof -
    have "(2::rat) powi (L - 52) = 2 powi (- (52 - L))" by simp
    also have "\<dots> = inverse (2 powi (52 - L))" by (simp only: power_int_minus)
    also have "\<dots> = inverse (2 ^ k)" using L52 by (simp add: k_def power_int_nonneg_exp)
    finally show ?thesis by (simp only: inverse_eq_divide)
  qed
  have q: "a / 2 powi (L - 52) = of_int (\<bar>n\<bar> * 2 ^ k)"
    by (simp add: u a_def)
  have r: "round_half_even (a / 2 powi (L - 52)) = \<bar>n\<bar> * 2 ^ k"
    unfolding q by (rule round_half_even_of_int)
  have v: "of_int (\<bar>n\<bar> * 2 ^ k) * (2::rat) powi (L - 52) = a"
    by (simp add: u a_def)
  have b: "of_int (\<bar>n\<bar> * 2 ^ k) * (2::rat) powi (L - 52) < 2 ^ 1024"
  proof -
    have "(2::rat) ^ 53 \<le> 2 ^ 1024" by (rule power_increasing) simp_all
    then show ?thesis unfolding v using a53 by (rule less_le_trans [rotated])
  qed
  have L1022: "- 1022 \<le> L" using L0 by simp
  have "round_double (of_int n)
      = Num (if 0 < (of_int n :: rat) then of_int (\<bar>n\<bar> * 2 ^ k) * 2 powi (L - 52)
             else - (of_int (\<bar>n\<bar> * 2 ^ k) * 2 powi (L - 52)))"
    using l g L1022 r b unfolding a_def by (rule round_double_normal)
  then show ?thesis unfolding v by (simp add: a_def)
qed

lemma round_double_numeral:
  assumes "(numeral k :: int) < 2 ^ 53"
  shows "round_double (numeral k) = Num (numeral k)"
  using round_double_of_int [of "numeral k"] assms by simp

lemma round_double_neg_numeral:
  assumes "(numeral k :: int) < 2 ^ 53"
  shows "round_double (- numeral k) = Num (- numeral k)"
  using round_double_of_int [of "- numeral k"] assms by simp

lemma round_double_0: "round_double 0 = Num 0"
  by (simp add: round_double_def)

lemma round_double_1: "round_double 1 = Num 1"
  using round_double_of_int [of 1] by simp

lemma round_half_even_near:
  assumes "\<bar>q - of_int n\<bar> < 1 / 2"
  shows "round_half_even q = n"
proof (cases "of_int n \<le> q")
  case True
  have "q < of_int n + 1" using assms by linarith
  with True have f: "\<lfloor>q\<rfloor> = n" by (rule floor_unique)
  have "q - of_int n < 1 / 2" using assms by linarith
  then show ?thesis unfolding round_half_even_def Let_def f by (simp only: if_True)
next
  case False
  have a: "of_int (n - 1) \<le> q" using assms unfolding of_int_diff of_int_1 by linarith
  have b: "q < of_int (n - 1) + 1" using False unfolding of_int_diff of_int_1 by linarith
  from a b have f: "\<lfloor>q\<rfloor> = n - 1" by (rule floor_unique)
  have c: "\<not> q - of_int (n - 1) < 1 / 2"
    using assms False unfolding of_int_diff of_int_1 by linarith
  have d: "1 / 2 < q - of_int (n - 1)"
    using assms False unfolding of_int_diff of_int_1 by linarith
  show ?thesis unfolding round_half_even_def Let_def f using c d by (simp only: if_True if_False)
qed

lemma round_half_even_tie:
  assumes "\<bar>q - of_int n\<bar> = 1 / 2" and "even n"
  shows "round_half_even q = n"
proof (cases "of_int n \<le> q")
  case True
  have a: "q < of_int n + 1" using assms(1) by linarith
  from True a have f: "\<lfloor>q\<rfloor> = n" by (rule floor_unique)
  have c: "\<not> q - of_int n < 1 / 2" using assms(1) True by linarith
  have d: "\<not> 1 / 2 < q - of_int n" using assms(1) True by linarith
  show ?thesis unfolding round_half_even_def Let_def f using c d assms(2)
    by (simp only: if_True if_False)
next
  case False
  have a: "of_int (n - 1) \<le> q" using assms(1) unfolding of_int_diff of_int_1 by linarith
  have b: "q < of_int (n - 1) + 1" using False unfolding of_int_diff of_int_1 by linarith
  from a b have f: "\<lfloor>q\<rfloor> = n - 1" by (rule floor_unique)
  have c: "\<not> q - of_int (n - 1) < 1 / 2"
    using assms(1) False unfolding of_int_diff of_int_1 by linarith
  have d: "\<not> 1 / 2 < q - of_int (n - 1)"
    using assms(1) False unfolding of_int_diff of_int_1 by linarith
  have e: "\<not> even (n - 1)" using assms(2) by simp
  show ?thesis unfolding round_half_even_def Let_def f using c d e
    by (simp only: if_True if_False)
qed

text \<open>
  A rounding checked by hand: \<open>n\<close> is the nearest multiple of the unit in the last place,
  the even one at a tie.
\<close>

lemma round_double_check:
  assumes "2 powi L \<le> \<bar>x\<bar>" and "\<bar>x\<bar> < 2 powi (L + 1)" and "- 1022 \<le> L"
    and "\<bar>\<bar>x\<bar> / 2 powi (L - 52) - of_int n\<bar> < 1 / 2
         \<or> \<bar>\<bar>x\<bar> / 2 powi (L - 52) - of_int n\<bar> = 1 / 2 \<and> even n"
    and "of_int n * 2 powi (L - 52) < (2::rat) ^ 1024"
  shows "round_double x
           = Num (if 0 < x then of_int n * 2 powi (L - 52) else - (of_int n * 2 powi (L - 52)))"
proof -
  have "round_half_even (\<bar>x\<bar> / 2 powi (L - 52)) = n"
    using assms(4) round_half_even_near round_half_even_tie by blast
  with assms(1,2,3) show ?thesis using assms(5) by (rule round_double_normal)
qed

text \<open>The roundings of the concrete checks: 0.1, 0.2 and their sum, 0.30000000000000004.\<close>

lemma tenth: "round_double (1 / 10) = Num (3602879701896397 / 36028797018963968)"
  using round_double_check [of "- 4" "1 / 10" 7205759403792794]
  by simp

lemma fifth: "round_double (1 / 5) = Num (3602879701896397 / 18014398509481984)"
  using round_double_check [of "- 3" "1 / 5" 7205759403792794]
  by simp

lemma tenth_double:
  "round_double (3602879701896397 / 36028797018963968) = Num (3602879701896397 / 36028797018963968)"
  using round_double_check [of "- 4" "3602879701896397 / 36028797018963968" 7205759403792794]
  by simp

lemma tenth_fifth:
  "round_double (10808639105689191 / 36028797018963968)
     = Num (1351079888211149 / 4503599627370496)"
  using round_double_check [of "- 2" "10808639105689191 / 36028797018963968" 5404319552844596]
  by simp

text \<open>
  7 / 100 is 0.07000000000000001 and 100 times it 7.000000000000001; 5200 / 5000 is
  1.04 rounded up and 100 times it 104; 0.3 is rounded down, so that 0.3 minus the sum
  of 0.1 and 0.2 is \<open>- (2 ^ - 54)\<close>.
\<close>

lemma seven_hundredths:
  "round_double (7 / 100) = Num (1261007895663739 / 18014398509481984)"
  using round_double_check [of "- 4" "7 / 100" 5044031582654956]
  by simp

lemma seven_percent:
  "round_double (31525197391593475 / 4503599627370496)
     = Num (7881299347898369 / 1125899906842624)"
  using round_double_check [of 2 "31525197391593475 / 4503599627370496" 7881299347898369]
  by simp

lemma scenario_ratio:
  "round_double (26 / 25) = Num (1170935903116329 / 1125899906842624)"
  using round_double_check [of 0 "26 / 25" 4683743612465316]
  by simp

lemma scenario_percent:
  "round_double (29273397577908225 / 281474976710656) = Num 104"
  using round_double_check [of 6 "29273397577908225 / 281474976710656" 7318349394477056]
  by simp

lemma three_tenths:
  "round_double (3 / 10) = Num (5404319552844595 / 18014398509481984)"
  using round_double_check [of "- 2" "3 / 10" 5404319552844595]
  by simp

lemma minus_ulp:
  "round_double (- (1 / 18014398509481984)) = Num (- (1 / 18014398509481984))"
  using round_double_check [of "- 54" "- (1 / 18014398509481984)" 4503599627370496]
  by simp

subsection \<open>Budget progress\<close>

lemma reduce_amount_spec_sum: "reduce_amount xs = spec_sum (map expense.amount xs)"
  by (simp add: reduce_amount_def spec_sum_def foldl_map)

lemma categoryExpenses_spec:
  assumes "zoneKeepsDay z" and "spec_currentMonth z now y m"
  shows "categoryExpenses (startOfMonth z now) (endOfMonth z now) b E
           = filter (\<lambda>e. expense.category_id e = Some (budget.category_id b)
                         \<and> spec_inMonthWindow z y m (expense.date e)) E"
  by (simp add: categoryExpenses_def isWithinInterval_spec [OF assms])

lemma budgetProgress1_fields:
  "spent (budgetProgress1 ms me E b) = reduce_amount (categoryExpenses ms me b E)"
  "remaining (budgetProgress1 ms me E b)
     = js_sub (js_num (budget.amount b)) (spent (budgetProgress1 ms me E b))"
  "percentage (budgetProgress1 ms me E b)
     = Math_min (js_times (js_div (spent (budgetProgress1 ms me E b)) (js_num (budget.amount b)))
         (Num 100)) (Num 100)"
  "isOverBudget (budgetProgress1 ms me E b)
     = js_gt (spent (budgetProgress1 ms me E b)) (js_num (budget.amount b))"
  by (simp_all add: budgetProgress1_def Let_def budget.extend_def budgetProgressRow.fields_def)

lemma spent_budgetProgress1:
  assumes "zoneKeepsDay z" and "spec_currentMonth z now y m"
  shows "spent (budgetProgress1 (startOfMonth z now) (endOfMonth z now) E b) = spec_spent z y m b E"
  by (simp add: budgetProgress1_fields categoryExpenses_spec [OF assms] reduce_amount_spec_sum
      spec_spent_def)

lemma spec_spent_frame:
  "spec_spent z y m (b\<lparr>period := p, budget.start_date := sd, budget.end_date := ed\<rparr>) E
     = spec_spent z y m b E"
  by (simp add: spec_spent_def)

lemma truncate_budgetProgress1: "budget.truncate (budgetProgress1 ms me E b) = b"
  by (simp add: budgetProgress1_def Let_def budget.truncate_def budget.extend_def)

lemma budgetProgress_nth:
  "i < length B \<Longrightarrow>
   budgetProgress z now B E ! i
     = budgetProgress1 (startOfMonth z now) (endOfMonth z now) E (B ! i)"
  by (simp add: budgetProgress_def Let_def)

lemma spec_spent_onGrid: "onGrid (spec_spent z y m b E)"
  unfolding spec_spent_def reduce_amount_spec_sum [symmetric] by (rule reduce_amount_onGrid)

text \<open>
  C1. For every list of budgets and of expenses, the \<open>spent\<close> of each budget is the sum of
  the amounts of exactly the expenses of the budget's category whose date lies in the
  window of the current calendar month, from the first to the last instant of the month
  by the rules of the calendar; the sum is the sum of the language, the amounts added one
  after the other in binary64. The window is the same for every budget, whatever its
  period, start date and end date. The zone is any zone that keeps the day and whose
  offsets stay within a day, and \<open>y\<close>, \<open>m\<close> are the year and the month of the clock.
\<close>

theorem budgetProgress_spent:
  assumes "zoneKeepsDay z" and "zoneWithinDay z" and "spec_currentMonth z now y m"
  shows "map spent (budgetProgress z now B E) = map (\<lambda>b. spec_spent z y m b E) B
       \<and> map spent (budgetProgress z now
            (map (\<lambda>b. b\<lparr>period := p b, budget.start_date := sd b, budget.end_date := ed b\<rparr>) B) E)
         = map spent (budgetProgress z now B E)"
  by (simp add: budgetProgress_def Let_def spent_budgetProgress1 [OF assms(1,3)] spec_spent_frame
      comp_def)

text \<open>
  New York, March 2025, a budget for food and one for rent, both with stored dates in
  January. Of the food expenses, 0.1 at the first instant of the month (1 March 05:00 UTC)
  and 0.2 at the last (1 April 03:59:59.999 UTC) count; the one an hour before the first
  instant, the one a millisecond after the last and the one with an unreadable date do
  not. The sum is 0.30000000000000004.
\<close>

theorem budgetProgress_spent_witness:
  "zoneKeepsDay zone_ny \<and> zoneWithinDay zone_ny \<and> spec_currentMonth zone_ny now_ny 2025 2
   \<and> map spent (budgetProgress zone_ny now_ny
        [mk_budget ''food'' 5000 weekly, mk_budget ''rent'' 900 yearly]
        [mk_expense (Some ''food'') (1 / 10) (TimeValue 1740805200000) False,
         mk_expense (Some ''food'') 50 (TimeValue 1740801600000) False,
         mk_expense (Some ''rent'') 900 (TimeValue 1742000000000) False,
         mk_expense None 40 (TimeValue 1742000000000) False,
         mk_expense (Some ''food'') (1 / 5) (TimeValue 1743479999999) True,
         mk_expense (Some ''food'') 50 (TimeValue 1743480000000) False,
         mk_expense (Some ''food'') 9 InvalidDate False])
     = [Num (1351079888211149 / 4503599627370496), Num 900]"
proof -
  let ?B = "[mk_budget ''food'' 5000 weekly, mk_budget ''rent'' 900 yearly]"
  let ?E = "[mk_expense (Some ''food'') (1 / 10) (TimeValue 1740805200000) False,
         mk_expense (Some ''food'') 50 (TimeValue 1740801600000) False,
         mk_expense (Some ''rent'') 900 (TimeValue 1742000000000) False,
         mk_expense None 40 (TimeValue 1742000000000) False,
         mk_expense (Some ''food'') (1 / 5) (TimeValue 1743479999999) True,
         mk_expense (Some ''food'') 50 (TimeValue 1743480000000) False,
         mk_expense (Some ''food'') 9 InvalidDate False]"
  have s: "map (\<lambda>b. spec_spent zone_ny 2025 2 b ?E) ?B
      = [Num (1351079888211149 / 4503599627370496), Num 900]"
    by (simp add: spec_spent_def spec_inMonthWindow_def window_ny spec_sum_def mk_budget_def
        mk_expense_def js_num_def tenth fifth tenth_double tenth_fifth round_double_numeral)
  show ?thesis
    using budgetProgress_spent [OF zone_ny_ok currentMonth_ny, THEN conjunct1, of ?B ?E]
      zone_ny_ok currentMonth_ny s
    by (simp only: simp_thms)
qed

text \<open>
  C2, the claim as worded. A budget of 100 and one expense of 7 in the window: the row
  holds 7.000000000000001, because the code divides first and multiplies after, while
  100 times 7 divided by 100 is 7.
\<close>

theorem budgetProgress_percentage_counterexample:
  "0 < budget.amount (mk_budget ''food'' 100 monthly)
   \<and> spec_spent zone_kolkata 2025 7 (mk_budget ''food'' 100 monthly)
        [mk_expense (Some ''food'') 7 (TimeValue 1755000000000) False] = Num 7
   \<and> percentage (budgetProgress zone_kolkata now_ex [mk_budget ''food'' 100 monthly]
        [mk_expense (Some ''food'') 7 (TimeValue 1755000000000) False] ! 0)
       = Num (7881299347898369 / 1125899906842624)
   \<and> spec_percentage
        (spec_spent zone_kolkata 2025 7 (mk_budget ''food'' 100 monthly)
           [mk_expense (Some ''food'') 7 (TimeValue 1755000000000) False])
        (js_num (budget.amount (mk_budget ''food'' 100 monthly))) = Num 7
   \<and> percentage (budgetProgress zone_kolkata now_ex [mk_budget ''food'' 100 monthly]
        [mk_expense (Some ''food'') 7 (TimeValue 1755000000000) False] ! 0)
       \<noteq> spec_percentage
        (spec_spent zone_kolkata 2025 7 (mk_budget ''food'' 100 monthly)
           [mk_expense (Some ''food'') 7 (TimeValue 1755000000000) False])
        (js_num (budget.amount (mk_budget ''food'' 100 monthly)))"
proof -
  let ?b = "mk_budget ''food'' 100 monthly"
  let ?E = "[mk_expense (Some ''food'') 7 (TimeValue 1755000000000) False]"
  let ?r = "budgetProgress zone_kolkata now_ex [?b] ?E ! 0"
  have a: "budget.amount ?b = 100" by (simp add: mk_budget_def)
  have s: "spec_spent zone_kolkata 2025 7 ?b ?E = Num 7"
    by (simp add: spec_spent_def spec_inMonthWindow_def window_kolkata spec_sum_def mk_budget_def
        mk_expense_def js_num_def round_double_numeral)
  have r: "?r = budgetProgress1 (startOfMonth zone_kolkata now_ex) (endOfMonth zone_kolkata now_ex) ?E ?b"
    by (simp add: budgetProgress_nth)
  have sp: "spent ?r = Num 7"
    unfolding r spent_budgetProgress1 [OF zone_kolkata_ok(1) currentMonth_kolkata] by (rule s)
  have p: "percentage ?r = Num (7881299347898369 / 1125899906842624)"
    using sp unfolding r budgetProgress1_fields(3) a
    by (simp add: js_num_def round_double_numeral js_div_def js_times_def Math_min_def
        seven_hundredths seven_percent)
  have q: "spec_percentage (spec_spent zone_kolkata 2025 7 ?b ?E) (js_num (budget.amount ?b)) = Num 7"
    unfolding s a
    by (simp add: spec_percentage_def js_num_def round_double_numeral js_div_def js_times_def
        Math_min_def)
  have n: "percentage ?r \<noteq> spec_percentage (spec_spent zone_kolkata 2025 7 ?b ?E) (js_num (budget.amount ?b))"
    unfolding p q by simp
  show ?thesis using a s p q n by (simp only: simp_thms)
qed

text \<open>
  C2, amended. The percentage of every row is the smaller of 100 and 100 times the
  quotient of spent by the amount, the quotient taken first and each operation rounded
  to binary64; the budget is over budget exactly when spent exceeds the amount, decided
  on the unclamped values.
\<close>

theorem budgetProgress_percentage:
  assumes "zoneKeepsDay z" and "zoneWithinDay z" and "spec_currentMonth z now y m"
  shows "map percentage (budgetProgress z now B E)
           = map (\<lambda>b. Math_min
                 (js_times (js_div (spec_spent z y m b E) (js_num (budget.amount b))) (Num 100))
                 (Num 100)) B
       \<and> map isOverBudget (budgetProgress z now B E)
           = map (\<lambda>b. js_gt (spec_spent z y m b E) (js_num (budget.amount b))) B"
  by (simp add: budgetProgress_def Let_def budgetProgress1_fields(3,4)
      spent_budgetProgress1 [OF assms(1,3)] comp_def)

text \<open>
  The scenario of the specification, in Kolkata in August 2025: a weekly budget of 5000
  against 3000 spent at the first instant of the month and 2200 at the last; an expense
  of another category and one a millisecond late do not count.
\<close>

theorem budgetProgress_percentage_witness:
  "zoneKeepsDay zone_kolkata \<and> zoneWithinDay zone_kolkata
   \<and> spec_currentMonth zone_kolkata now_ex 2025 7
   \<and> map percentage (budgetProgress zone_kolkata now_ex [mk_budget ''food'' 5000 weekly]
        [mk_expense (Some ''food'') 3000 (TimeValue 1753986600000) False,
         mk_expense (Some ''rent'') 900 (TimeValue 1755000000000) False,
         mk_expense (Some ''food'') 2200 (TimeValue 1756664999999) True,
         mk_expense (Some ''food'') 50 (TimeValue 1756665000000) False]) = [Num 100]
   \<and> map isOverBudget (budgetProgress zone_kolkata now_ex [mk_budget ''food'' 5000 weekly]
        [mk_expense (Some ''food'') 3000 (TimeValue 1753986600000) False,
         mk_expense (Some ''rent'') 900 (TimeValue 1755000000000) False,
         mk_expense (Some ''food'') 2200 (TimeValue 1756664999999) True,
         mk_expense (Some ''food'') 50 (TimeValue 1756665000000) False]) = [True]"
proof -
  let ?B = "[mk_budget ''food'' 5000 weekly]"
  let ?E = "[mk_expense (Some ''food'') 3000 (TimeValue 1753986600000) False,
         mk_expense (Some ''rent'') 900 (TimeValue 1755000000000) False,
         mk_expense (Some ''food'') 2200 (TimeValue 1756664999999) True,
         mk_expense (Some ''food'') 50 (TimeValue 1756665000000) False]"
  have s: "spec_spent zone_kolkata 2025 7 (mk_budget ''food'' 5000 weekly) ?E = Num 5200"
    by (simp add: spec_spent_def spec_inMonthWindow_def window_kolkata spec_sum_def mk_budget_def
        mk_expense_def js_num_def round_double_numeral)
  have a: "budget.amount (mk_budget ''food'' 5000 weekly) = 5000" by (simp add: mk_budget_def)
  have p: "map (\<lambda>b. Math_min
                 (js_times (js_div (spec_spent zone_kolkata 2025 7 b ?E) (js_num (budget.amount b)))
                    (Num 100)) (Num 100)) ?B = [Num 100]"
    by (simp add: s a js_num_def round_double_numeral js_div_def js_times_def Math_min_def
        scenario_ratio scenario_percent)
  have q: "map (\<lambda>b. js_gt (spec_spent zone_kolkata 2025 7 b ?E) (js_num (budget.amount b))) ?B
      = [True]"
    by (simp add: s a js_num_def round_double_numeral js_gt_def)
  show ?thesis
    using budgetProgress_percentage [OF zone_kolkata_ok currentMonth_kolkata, of ?B ?E]
      zone_kolkata_ok currentMonth_kolkata p q
    by (simp only: simp_thms)
qed

text \<open>
  C9. The result has one row per budget, in the order of the input, and each row carries
  the fields of its budget unchanged; the four derived fields are the only additions.
\<close>

theorem budgetProgress_frame:
  "map budget.truncate (budgetProgress z now B E) = B"
  by (simp add: budgetProgress_def Let_def truncate_budgetProgress1 comp_def)

text \<open>
  C3. The \<open>remaining\<close> of a budget is its amount minus spent, signed and unclamped, so it
  is negative exactly when spent exceeds the amount. With an amount of 1000 and no matching
  expense: spent 0, remaining 1000, percentage 0, not over budget.
\<close>

theorem budgetProgress_remaining:
  assumes "zoneKeepsDay z" and "zoneWithinDay z" and "spec_currentMonth z now y m"
    and "i < length B"
  shows "remaining (budgetProgress z now B E ! i)
           = js_sub (js_num (budget.amount (B ! i))) (spec_spent z y m (B ! i) E)
         \<and> (js_lt (remaining (budgetProgress z now B E ! i)) (Num 0)
              \<longleftrightarrow> js_gt (spec_spent z y m (B ! i) E) (js_num (budget.amount (B ! i))))
         \<and> (budget.amount (B ! i) = 1000
              \<and> filter (\<lambda>e. expense.category_id e = Some (budget.category_id (B ! i))
                            \<and> spec_inMonthWindow z y m (expense.date e)) E = []
            \<longrightarrow> spent (budgetProgress z now B E ! i) = Num 0
              \<and> remaining (budgetProgress z now B E ! i) = Num 1000
              \<and> percentage (budgetProgress z now B E ! i) = Num 0
              \<and> isOverBudget (budgetProgress z now B E ! i) = False)"
proof -
  let ?r = "budgetProgress z now B E ! i"
  let ?b = "B ! i"
  have r: "?r = budgetProgress1 (startOfMonth z now) (endOfMonth z now) E ?b"
    using assms(4) by (rule budgetProgress_nth)
  have s: "spent ?r = spec_spent z y m ?b E"
    unfolding r using assms(1,3) by (rule spent_budgetProgress1)
  have rem: "remaining ?r = js_sub (js_num (budget.amount ?b)) (spec_spent z y m ?b E)"
    unfolding s [symmetric] unfolding r by (rule budgetProgress1_fields(2))
  have neg: "js_lt (remaining ?r) (Num 0)
      \<longleftrightarrow> js_gt (spec_spent z y m ?b E) (js_num (budget.amount ?b))"
    unfolding rem js_gt_def using js_num_onGrid spec_spent_onGrid by (rule js_sub_lt0)
  have scen: "spent ?r = Num 0 \<and> remaining ?r = Num 1000 \<and> percentage ?r = Num 0
      \<and> isOverBudget ?r = False"
    if a: "budget.amount ?b = 1000"
      and e: "filter (\<lambda>e. expense.category_id e = Some (budget.category_id ?b)
                            \<and> spec_inMonthWindow z y m (expense.date e)) E = []"
  proof -
    have z: "spec_spent z y m ?b E = Num 0"
      unfolding spec_spent_def e by (simp add: spec_sum_def)
    have s0: "spent ?r = Num 0" using s z by simp
    have r0: "remaining ?r = Num 1000"
      unfolding rem z a by (simp add: js_sub_def js_num_def round_double_numeral)
    have s1: "spent (budgetProgress1 (startOfMonth z now) (endOfMonth z now) E ?b) = Num 0"
      using s0 unfolding r .
    have p0: "percentage ?r = Num 0"
      unfolding r budgetProgress1_fields(3) s1 a
      by (simp add: js_num_def round_double_numeral js_div_def js_times_def Math_min_def)
    have o0: "isOverBudget ?r = False"
      unfolding r budgetProgress1_fields(4) s1 a
      by (simp add: js_num_def round_double_numeral js_gt_def)
    show ?thesis using s0 r0 p0 o0 by simp
  qed
  show ?thesis using rem neg scen by blast
qed

text \<open>
  New York, March 2025. A budget of 1000 for food, whose only expense is dated a
  millisecond after the month, and a budget of 0.3 for tea with 0.1 and 0.2 spent: their
  sum is 0.30000000000000004, the budget is exceeded and what remains is below zero.
\<close>

theorem budgetProgress_remaining_witness:
  "zoneKeepsDay zone_ny \<and> zoneWithinDay zone_ny \<and> spec_currentMonth zone_ny now_ny 2025 2
   \<and> (0::nat) < length [mk_budget ''food'' 1000 monthly, mk_budget ''tea'' (3 / 10) monthly]
   \<and> (1::nat) < length [mk_budget ''food'' 1000 monthly, mk_budget ''tea'' (3 / 10) monthly]
   \<and> budget.amount ([mk_budget ''food'' 1000 monthly, mk_budget ''tea'' (3 / 10) monthly] ! 0) = 1000
   \<and> filter (\<lambda>e. expense.category_id e
          = Some (budget.category_id
              ([mk_budget ''food'' 1000 monthly, mk_budget ''tea'' (3 / 10) monthly] ! 0))
          \<and> spec_inMonthWindow zone_ny 2025 2 (expense.date e))
        [mk_expense (Some ''tea'') (1 / 10) (TimeValue 1740805200000) False,
         mk_expense None 40 (TimeValue 1742000000000) False,
         mk_expense (Some ''food'') 50 (TimeValue 1743480000000) False,
         mk_expense (Some ''tea'') (1 / 5) (TimeValue 1743479999999) False] = []
   \<and> spent (budgetProgress zone_ny now_ny
        [mk_budget ''food'' 1000 monthly, mk_budget ''tea'' (3 / 10) monthly]
        [mk_expense (Some ''tea'') (1 / 10) (TimeValue 1740805200000) False,
         mk_expense None 40 (TimeValue 1742000000000) False,
         mk_expense (Some ''food'') 50 (TimeValue 1743480000000) False,
         mk_expense (Some ''tea'') (1 / 5) (TimeValue 1743479999999) False] ! 0) = Num 0
   \<and> remaining (budgetProgress zone_ny now_ny
        [mk_budget ''food'' 1000 monthly, mk_budget ''tea'' (3 / 10) monthly]
        [mk_expense (Some ''tea'') (1 / 10) (TimeValue 1740805200000) False,
         mk_expense None 40 (TimeValue 1742000000000) False,
         mk_expense (Some ''food'') 50 (TimeValue 1743480000000) False,
         mk_expense (Some ''tea'') (1 / 5) (TimeValue 1743479999999) False] ! 0) = Num 1000
   \<and> percentage (budgetProgress zone_ny now_ny
        [mk_budget ''food'' 1000 monthly, mk_budget ''tea'' (3 / 10) monthly]
        [mk_expense (Some ''tea'') (1 / 10) (TimeValue 1740805200000) False,
         mk_expense None 40 (TimeValue 1742000000000) False,
         mk_expense (Some ''food'') 50 (TimeValue 1743480000000) False,
         mk_expense (Some ''tea'') (1 / 5) (TimeValue 1743479999999) False] ! 0) = Num 0
   \<and> isOverBudget (budgetProgress zone_ny now_ny
        [mk_budget ''food'' 1000 monthly, mk_budget ''tea'' (3 / 10) monthly]
        [mk_expense (Some ''tea'') (1 / 10) (TimeValue 1740805200000) False,
         mk_expense None 40 (TimeValue 1742000000000) False,
         mk_expense (Some ''food'') 50 (TimeValue 1743480000000) False,
         mk_expense (Some ''tea'') (1 / 5) (TimeValue 1743479999999) False] ! 0) = False
   \<and> remaining (budgetProgress zone_ny now_ny
        [mk_budget ''food'' 1000 monthly, mk_budget ''tea'' (3 / 10) monthly]
        [mk_expense (Some ''tea'') (1 / 10) (TimeValue 1740805200000) False,
         mk_expense None 40 (TimeValue 1742000000000) False,
         mk_expense (Some ''food'') 50 (TimeValue 1743480000000) False,
         mk_expense (Some ''tea'') (1 / 5) (TimeValue 1743479999999) False] ! 1)
       = Num (- (1 / 18014398509481984))
   \<and> js_lt (remaining (budgetProgress zone_ny now_ny
        [mk_budget ''food'' 1000 monthly, mk_budget ''tea'' (3 / 10) monthly]
        [mk_expense (Some ''tea'') (1 / 10) (TimeValue 1740805200000) False,
         mk_expense None 40 (TimeValue 1742000000000) False,
         mk_expense (Some ''food'') 50 (TimeValue 1743480000000) False,
         mk_expense (Some ''tea'') (1 / 5) (TimeValue 1743479999999) False] ! 1)) (Num 0)"
proof -
  let ?B = "[mk_budget ''food'' 1000 monthly, mk_budget ''tea'' (3 / 10) monthly]"
  let ?E = "[mk_expense (Some ''tea'') (1 / 10) (TimeValue 1740805200000) False,
         mk_expense None 40 (TimeValue 1742000000000) False,
         mk_expense (Some ''food'') 50 (TimeValue 1743480000000) False,
         mk_expense (Some ''tea'') (1 / 5) (TimeValue 1743479999999) False]"
  have l0: "(0::nat) < length ?B" by simp
  have l1: "(1::nat) < length ?B" by simp
  have a: "budget.amount (?B ! 0) = 1000" by (simp add: mk_budget_def)
  have e: "filter (\<lambda>e. expense.category_id e = Some (budget.category_id (?B ! 0))
                      \<and> spec_inMonthWindow zone_ny 2025 2 (expense.date e)) ?E = []"
    by (simp add: spec_inMonthWindow_def window_ny mk_budget_def mk_expense_def)
  have s1: "spec_spent zone_ny 2025 2 (?B ! 1) ?E = Num (1351079888211149 / 4503599627370496)"
    by (simp add: spec_spent_def spec_inMonthWindow_def window_ny spec_sum_def mk_budget_def
        mk_expense_def js_num_def tenth fifth tenth_double tenth_fifth)
  have a1: "js_num (budget.amount (?B ! 1)) = Num (5404319552844595 / 18014398509481984)"
    by (simp add: mk_budget_def js_num_def three_tenths)
  have d: "js_sub (js_num (budget.amount (?B ! 1))) (spec_spent zone_ny 2025 2 (?B ! 1) ?E)
      = Num (- (1 / 18014398509481984))"
    unfolding s1 a1 by (simp add: js_sub_def minus_ulp)
  have g: "js_gt (spec_spent zone_ny 2025 2 (?B ! 1) ?E) (js_num (budget.amount (?B ! 1)))"
    unfolding s1 a1 by (simp add: js_gt_def)
  note t0 = budgetProgress_remaining [OF zone_ny_ok currentMonth_ny l0, of ?E]
  note t1 = budgetProgress_remaining [OF zone_ny_ok currentMonth_ny l1, of ?E]
  have r0: "spent (budgetProgress zone_ny now_ny ?B ?E ! 0) = Num 0
      \<and> remaining (budgetProgress zone_ny now_ny ?B ?E ! 0) = Num 1000
      \<and> percentage (budgetProgress zone_ny now_ny ?B ?E ! 0) = Num 0
      \<and> isOverBudget (budgetProgress zone_ny now_ny ?B ?E ! 0) = False"
    using t0 a e by blast
  have r1: "remaining (budgetProgress zone_ny now_ny ?B ?E ! 1) = Num (- (1 / 18014398509481984))"
    using t1 d by (simp only:)
  have r2: "js_lt (remaining (budgetProgress zone_ny now_ny ?B ?E ! 1)) (Num 0)"
    using t1 g by blast
  show ?thesis
    using zone_ny_ok currentMonth_ny l0 l1 a e r0 r1 r2 by (simp only: simp_thms)
qed

subsection \<open>Monthly statistics\<close>

lemma monthlyStats_fields:
  "totalSpent (monthlyStats z now E B P)
     = reduce_amount (monthlyExpenses (startOfMonth z now) (endOfMonth z now) E)"
  "regretSpending (monthlyStats z now E B P)
     = reduce_amount (filter expense.is_regret
         (monthlyExpenses (startOfMonth z now) (endOfMonth z now) E))"
  "upcomingPayments (monthlyStats z now E B P)
     = filter (\<lambda>p. date_le (next_due_date p) (now + 7 * 24 * 60 * 60 * 1000)) P"
  "expenseCount (monthlyStats z now E B P)
     = length (monthlyExpenses (startOfMonth z now) (endOfMonth z now) E)"
  by (simp_all add: monthlyStats_def Let_def)

lemma monthlyExpenses_spec:
  assumes "zoneKeepsDay z" and "spec_currentMonth z now y m"
  shows "monthlyExpenses (startOfMonth z now) (endOfMonth z now) E
           = filter (\<lambda>e. spec_inMonthWindow z y m (expense.date e)) E"
  by (simp add: monthlyExpenses_def isWithinInterval_spec [OF assms])

text \<open>
  C4. The list of upcoming payments has no lower bound on the due date. Of four payments,
  due 40 days ago, in 3 days, in 8 days and at an unreadable date, the code lists the
  first two; only the second is due within the next 7 days. The page shows the length of
  the list under the title \<^verbatim>\<open>Upcoming Payments\<close> with the note \<^verbatim>\<open>Next 7 days\<close>.
\<close>

theorem upcomingPayments_overdue:
  "upcomingPayments (monthlyStats zone_kolkata now_ex [] []
      [mk_payment ''loan'' (TimeValue (now_ex - 40 * msPerDay)),
       mk_payment ''gym'' (TimeValue (now_ex + 3 * msPerDay)),
       mk_payment ''net'' (TimeValue (now_ex + 8 * msPerDay)),
       mk_payment ''bad'' InvalidDate])
     = [mk_payment ''loan'' (TimeValue (now_ex - 40 * msPerDay)),
        mk_payment ''gym'' (TimeValue (now_ex + 3 * msPerDay))]
   \<and> filter (spec_dueWithinNext7Days now_ex)
      [mk_payment ''loan'' (TimeValue (now_ex - 40 * msPerDay)),
       mk_payment ''gym'' (TimeValue (now_ex + 3 * msPerDay)),
       mk_payment ''net'' (TimeValue (now_ex + 8 * msPerDay)),
       mk_payment ''bad'' InvalidDate]
     = [mk_payment ''gym'' (TimeValue (now_ex + 3 * msPerDay))]"
  by (simp add: monthlyStats_fields(3) spec_dueWithinNext7Days_def mk_payment_def msPerDay_def
      now_ex_def)

lemma reduce_amount_snoc:
  "reduce_amount (xs @ [e]) = js_add (reduce_amount xs) (js_num (expense.amount e))"
  by (simp add: reduce_amount_def)

lemma spent_budgetProgress1_snoc:
  assumes "isWithinInterval (expense.date e) ms me"
  shows "spent (budgetProgress1 ms me (E @ [e]) b)
           = (if expense.category_id e = Some (budget.category_id b)
              then js_add (spent (budgetProgress1 ms me E b)) (js_num (expense.amount e))
              else spent (budgetProgress1 ms me E b))"
  using assms by (simp add: budgetProgress1_fields(1) categoryExpenses_def reduce_amount_snoc)

text \<open>
  C5. The window of the month has both its ends. An expense dated at the first instant
  of the current month, local midnight of its first day, or at its last instant, the
  millisecond before local midnight of the first day of the next month, is counted by
  both pages: added to a list of expenses, it raises the count of the month by one and
  adds its amount to the total of the month and to \<open>spent\<close> of the budgets of its category.
\<close>

theorem month_window_inclusive:
  assumes "zoneKeepsDay z" and "zoneWithinDay z" and "spec_currentMonth z now y m"
    and "expense.date e = TimeValue (spec_firstInstant z y m)
         \<or> expense.date e = TimeValue (spec_lastInstant z y m)"
  shows "expenseCount (monthlyStats z now (E @ [e]) B P)
           = expenseCount (monthlyStats z now E B P) + 1
       \<and> totalSpent (monthlyStats z now (E @ [e]) B P)
           = js_add (totalSpent (monthlyStats z now E B P)) (js_num (expense.amount e))
       \<and> map spent (budgetProgress z now B (E @ [e]))
           = map (\<lambda>(b, s). if expense.category_id e = Some (budget.category_id b)
                            then js_add s (js_num (expense.amount e)) else s)
               (zip B (map spent (budgetProgress z now B E)))"
proof -
  have m: "0 \<le> m" "m \<le> 11" using assms(3) by (simp_all add: spec_currentMonth_def)
  have le: "spec_firstInstant z y m \<le> spec_lastInstant z y m"
    using assms(2) m by (rule firstInstant_le_lastInstant)
  have s: "spec_inMonthWindow z y m (expense.date e)"
    using assms(4) le by (auto simp add: spec_inMonthWindow_def)
  have w: "isWithinInterval (expense.date e) (startOfMonth z now) (endOfMonth z now)"
    using s by (simp only: isWithinInterval_spec [OF assms(1,3)])
  have f: "monthlyExpenses (startOfMonth z now) (endOfMonth z now) (E @ [e])
      = monthlyExpenses (startOfMonth z now) (endOfMonth z now) E @ [e]"
    using w by (simp add: monthlyExpenses_def)
  have c: "expenseCount (monthlyStats z now (E @ [e]) B P)
      = expenseCount (monthlyStats z now E B P) + 1"
    by (simp add: monthlyStats_fields(4) f)
  have t: "totalSpent (monthlyStats z now (E @ [e]) B P)
      = js_add (totalSpent (monthlyStats z now E B P)) (js_num (expense.amount e))"
    by (simp add: monthlyStats_fields(1) f reduce_amount_snoc)
  have b: "map spent (budgetProgress z now B (E @ [e]))
      = map (\<lambda>(b, s). if expense.category_id e = Some (budget.category_id b)
                       then js_add s (js_num (expense.amount e)) else s)
          (zip B (map spent (budgetProgress z now B E)))"
    by (simp add: budgetProgress_def Let_def comp_def spent_budgetProgress1_snoc [OF w]
        zip_map2 zip_same_conv_map)
  show ?thesis using c t b by (simp only: simp_thms)
qed

text \<open>
  New York, March 2025: 120 for food at the first instant of the month, 1 March 00:00
  local time (05:00 UTC), and 80 for food at the last, 31 March 23:59:59.999 local time
  (1 April 03:59:59.999 UTC).
\<close>

theorem month_window_inclusive_witness:
  "zoneKeepsDay zone_ny \<and> zoneWithinDay zone_ny \<and> spec_currentMonth zone_ny now_ny 2025 2
   \<and> expense.date (mk_expense (Some ''food'') 120 (TimeValue 1740805200000) False)
       = TimeValue (spec_firstInstant zone_ny 2025 2)
   \<and> expense.date (mk_expense (Some ''food'') 80 (TimeValue 1743479999999) True)
       = TimeValue (spec_lastInstant zone_ny 2025 2)
   \<and> expenseCount (monthlyStats zone_ny now_ny
        [mk_expense (Some ''food'') 120 (TimeValue 1740805200000) False,
         mk_expense (Some ''food'') 80 (TimeValue 1743479999999) True]
        [mk_budget ''food'' 5000 monthly, mk_budget ''rent'' 900 monthly] []) = 2
   \<and> totalSpent (monthlyStats zone_ny now_ny
        [mk_expense (Some ''food'') 120 (TimeValue 1740805200000) False,
         mk_expense (Some ''food'') 80 (TimeValue 1743479999999) True]
        [mk_budget ''food'' 5000 monthly, mk_budget ''rent'' 900 monthly] []) = Num 200
   \<and> map spent (budgetProgress zone_ny now_ny
        [mk_budget ''food'' 5000 monthly, mk_budget ''rent'' 900 monthly]
        [mk_expense (Some ''food'') 120 (TimeValue 1740805200000) False,
         mk_expense (Some ''food'') 80 (TimeValue 1743479999999) True]) = [Num 200, Num 0]"
proof -
  let ?e1 = "mk_expense (Some ''food'') 120 (TimeValue 1740805200000) False"
  let ?e2 = "mk_expense (Some ''food'') 80 (TimeValue 1743479999999) True"
  let ?B = "[mk_budget ''food'' 5000 monthly, mk_budget ''rent'' 900 monthly]"
  have d1: "expense.date ?e1 = TimeValue (spec_firstInstant zone_ny 2025 2)"
    by (simp add: mk_expense_def window_ny)
  have d2: "expense.date ?e2 = TimeValue (spec_lastInstant zone_ny 2025 2)"
    by (simp add: mk_expense_def window_ny)
  have c0: "expenseCount (monthlyStats zone_ny now_ny [] ?B []) = 0"
    by (simp add: monthlyStats_fields(4) monthlyExpenses_def)
  have t0: "totalSpent (monthlyStats zone_ny now_ny [] ?B []) = Num 0"
    by (simp add: monthlyStats_fields(1) monthlyExpenses_def reduce_amount_def)
  have b0: "map spent (budgetProgress zone_ny now_ny ?B []) = [Num 0, Num 0]"
    by (simp add: budgetProgress_def Let_def budgetProgress1_fields(1) categoryExpenses_def
        reduce_amount_def)
  note s1 = month_window_inclusive [OF zone_ny_ok currentMonth_ny disjI1 [OF d1],
      of "[]" ?B "[]", unfolded append.simps c0 t0 b0]
  have c1: "expenseCount (monthlyStats zone_ny now_ny [?e1] ?B []) = 1"
    using s1 by simp
  have t1: "totalSpent (monthlyStats zone_ny now_ny [?e1] ?B []) = Num 120"
    using s1 by (simp add: mk_expense_def js_num_def round_double_numeral)
  have b1: "map spent (budgetProgress zone_ny now_ny ?B [?e1]) = [Num 120, Num 0]"
    using s1 by (simp add: mk_expense_def mk_budget_def js_num_def round_double_numeral)
  note s2 = month_window_inclusive [OF zone_ny_ok currentMonth_ny disjI2 [OF d2],
      of "[?e1]" ?B "[]", unfolded append.simps c1 t1 b1]
  have c2: "expenseCount (monthlyStats zone_ny now_ny [?e1, ?e2] ?B []) = 2"
    using s2 by simp
  have t2: "totalSpent (monthlyStats zone_ny now_ny [?e1, ?e2] ?B []) = Num 200"
    using s2 by (simp add: mk_expense_def js_num_def round_double_numeral)
  have b2: "map spent (budgetProgress zone_ny now_ny ?B [?e1, ?e2]) = [Num 200, Num 0]"
    using s2 by (simp add: mk_expense_def mk_budget_def js_num_def round_double_numeral)
  show ?thesis
    using zone_ny_ok currentMonth_ny d1 d2 c2 t2 b2 by (simp only: simp_thms)
qed

text \<open>
  C6. The regret spending of the month is the sum of the amounts of the expenses of the
  window that carry the regret flag; the total spent is the sum over all the expenses of
  the window, whatever the flag.
\<close>

theorem monthlyStats_regretSpending:
  assumes "zoneKeepsDay z" and "zoneWithinDay z" and "spec_currentMonth z now y m"
  shows "regretSpending (monthlyStats z now E B P)
           = spec_sum (map expense.amount
               (filter (\<lambda>e. spec_inMonthWindow z y m (expense.date e) \<and> expense.is_regret e) E))
       \<and> totalSpent (monthlyStats z now E B P)
           = spec_sum (map expense.amount
               (filter (\<lambda>e. spec_inMonthWindow z y m (expense.date e)) E))"
  by (simp add: monthlyStats_fields(1,2) monthlyExpenses_spec [OF assms(1,3)]
      reduce_amount_spec_sum conj_commute)

text \<open>
  The scenario of the specification, in Kolkata in August 2025: 300 regretted and 700 not,
  both in the window; a regretted 50 a millisecond after the month does not count.
\<close>

theorem monthlyStats_regretSpending_witness:
  "zoneKeepsDay zone_kolkata \<and> zoneWithinDay zone_kolkata
   \<and> spec_currentMonth zone_kolkata now_ex 2025 7
   \<and> regretSpending (monthlyStats zone_kolkata now_ex
        [mk_expense (Some ''food'') 300 (TimeValue 1755000000000) True,
         mk_expense None 700 (TimeValue 1753986600000) False,
         mk_expense (Some ''food'') 50 (TimeValue 1756665000000) True] [] []) = Num 300
   \<and> totalSpent (monthlyStats zone_kolkata now_ex
        [mk_expense (Some ''food'') 300 (TimeValue 1755000000000) True,
         mk_expense None 700 (TimeValue 1753986600000) False,
         mk_expense (Some ''food'') 50 (TimeValue 1756665000000) True] [] []) = Num 1000"
proof -
  let ?E = "[mk_expense (Some ''food'') 300 (TimeValue 1755000000000) True,
         mk_expense None 700 (TimeValue 1753986600000) False,
         mk_expense (Some ''food'') 50 (TimeValue 1756665000000) True]"
  have r: "spec_sum (map expense.amount
      (filter (\<lambda>e. spec_inMonthWindow zone_kolkata 2025 7 (expense.date e) \<and> expense.is_regret e) ?E))
      = Num 300"
    by (simp add: spec_inMonthWindow_def window_kolkata spec_sum_def mk_expense_def js_num_def
        round_double_numeral)
  have t: "spec_sum (map expense.amount
      (filter (\<lambda>e. spec_inMonthWindow zone_kolkata 2025 7 (expense.date e)) ?E)) = Num 1000"
    by (simp add: spec_inMonthWindow_def window_kolkata spec_sum_def mk_expense_def js_num_def
        round_double_numeral)
  show ?thesis
    using monthlyStats_regretSpending [OF zone_kolkata_ok currentMonth_kolkata, of ?E "[]" "[]"]
      zone_kolkata_ok currentMonth_kolkata r t
    by (simp only: simp_thms)
qed

subsection \<open>Refreshing the snapshots\<close>

lemma setIfData_idem: "setIfData q (setIfData q old) = setIfData q old"
  by (induction q old rule: setIfData.induct) simp_all

lemma refreshData_resolved:
  assumes "\<not> promiseAllRejects r"
  shows "categories (refreshData (Some u) r s) = setIfData (categoriesResult r) (categories s)"
    and "expenses (refreshData (Some u) r s) = setIfData (expensesResult r) (expenses s)"
    and "budgets (refreshData (Some u) r s) = setIfData (budgetsResult r) (budgets s)"
    and "recurringPayments (refreshData (Some u) r s)
           = setIfData (recurringPaymentsResult r) (recurringPayments s)"
    and "debts (refreshData (Some u) r s) = setIfData (debtsResult r) (debts s)"
    and "savingsChallenges (refreshData (Some u) r s)
           = setIfData (savingsChallengesResult r) (savingsChallenges s)"
    and "regretPurchases (refreshData (Some u) r s)
           = setIfData (regretPurchasesResult r) (regretPurchases s)"
    and "insights (refreshData (Some u) r s) = setIfData (insightsResult r) (insights s)"
    and "loading (refreshData (Some u) r s) = False"
  using assms by (simp_all add: refreshData_def)

lemma refreshData_rejected:
  "promiseAllRejects r \<Longrightarrow> refreshData (Some u) r s = s\<lparr> loading := False \<rparr>"
  by (simp add: refreshData_def)

text \<open>
  C7. The client of the store resolves a query that failed, also one whose request
  failed, with \<^verbatim>\<open>data: null\<close> and the error, and the code never asks it to throw: a fetch
  that fails is a result without data, and no promise rejects. Then a collection whose
  fetch failed keeps its previous snapshot, whole, and every collection whose fetch
  returned data is replaced by that data.
\<close>

theorem refreshData_partial_failure:
  assumes "\<not> promiseAllRejects r"
  shows "(categoriesResult r = Resolved None
         \<longrightarrow> categories (refreshData (Some u) r s) = categories s)
    \<and> (categoriesResult r = Resolved (Some cs)
         \<longrightarrow> categories (refreshData (Some u) r s) = cs)
    \<and> (expensesResult r = Resolved None
         \<longrightarrow> expenses (refreshData (Some u) r s) = expenses s)
    \<and> (expensesResult r = Resolved (Some es)
         \<longrightarrow> expenses (refreshData (Some u) r s) = es)
    \<and> (budgetsResult r = Resolved None
         \<longrightarrow> budgets (refreshData (Some u) r s) = budgets s)
    \<and> (budgetsResult r = Resolved (Some bs)
         \<longrightarrow> budgets (refreshData (Some u) r s) = bs)
    \<and> (recurringPaymentsResult r = Resolved None
         \<longrightarrow> recurringPayments (refreshData (Some u) r s) = recurringPayments s)
    \<and> (recurringPaymentsResult r = Resolved (Some ps)
         \<longrightarrow> recurringPayments (refreshData (Some u) r s) = ps)
    \<and> (debtsResult r = Resolved None
         \<longrightarrow> debts (refreshData (Some u) r s) = debts s)
    \<and> (debtsResult r = Resolved (Some ds)
         \<longrightarrow> debts (refreshData (Some u) r s) = ds)
    \<and> (savingsChallengesResult r = Resolved None
         \<longrightarrow> savingsChallenges (refreshData (Some u) r s) = savingsChallenges s)
    \<and> (savingsChallengesResult r = Resolved (Some ss)
         \<longrightarrow> savingsChallenges (refreshData (Some u) r s) = ss)
    \<and> (regretPurchasesResult r = Resolved None
         \<longrightarrow> regretPurchases (refreshData (Some u) r s) = regretPurchases s)
    \<and> (regretPurchasesResult r = Resolved (Some gs)
         \<longrightarrow> regretPurchases (refreshData (Some u) r s) = gs)
    \<and> (insightsResult r = Resolved None
         \<longrightarrow> insights (refreshData (Some u) r s) = insights s)
    \<and> (insightsResult r = Resolved (Some ns)
         \<longrightarrow> insights (refreshData (Some u) r s) = ns)"
  by (simp add: refreshData_resolved [OF assms])

text \<open>
  The fetch of the expenses fails and the fetch of the categories returns one fresh row:
  the expenses of before stay, all of them, and the categories are replaced.
\<close>

theorem refreshData_partial_failure_witness:
  "\<not> promiseAllRejects (results_ex (Resolved None))
   \<and> expensesResult (results_ex (Resolved None)) = Resolved None
   \<and> categoriesResult (results_ex (Resolved None)) = Resolved (Some [mk_category ''new''])
   \<and> expenses (refreshData (Some ''u1'') (results_ex (Resolved None)) state_ex)
       = expenses state_ex
   \<and> expenses state_ex \<noteq> []
   \<and> categories state_ex \<noteq> [mk_category ''new'']
   \<and> categories (refreshData (Some ''u1'') (results_ex (Resolved None)) state_ex)
       = [mk_category ''new'']"
proof -
  have n: "\<not> promiseAllRejects (results_ex (Resolved None))"
    by (simp add: promiseAllRejects_def results_ex_def)
  have e: "expensesResult (results_ex (Resolved None)) = Resolved None"
    by (simp add: results_ex_def)
  have c: "categoriesResult (results_ex (Resolved None)) = Resolved (Some [mk_category ''new''])"
    by (simp add: results_ex_def)
  have l: "expenses state_ex \<noteq> []" "categories state_ex \<noteq> [mk_category ''new'']"
    by (simp_all add: state_ex_def mk_category_def)
  have a: "expenses (refreshData (Some ''u1'') (results_ex (Resolved None)) state_ex)
       = expenses state_ex
     \<and> categories (refreshData (Some ''u1'') (results_ex (Resolved None)) state_ex)
       = [mk_category ''new'']"
    using refreshData_partial_failure [OF n, of "''u1''" state_ex "[mk_category ''new'']"] e c
    by simp
  show ?thesis using n e c l a by simp
qed

text \<open>
  C8. A second refresh against the same answers of the store leaves every snapshot as the
  first refresh left it.
\<close>

theorem refreshData_idempotent:
  "refreshData user r (refreshData user r s) = refreshData user r s"
proof (cases user)
  case None
  then show ?thesis by (simp add: refreshData_def)
next
  case (Some u)
  show ?thesis
  proof (cases "promiseAllRejects r")
    case True
    then show ?thesis by (simp add: Some refreshData_def)
  next
    case False
    then show ?thesis by (simp add: Some refreshData_def setIfData_idem)
  qed
qed

subsection \<open>The submitted expense\<close>

text \<open>
  C10. In every row that the form submits: without the regret flag the regret reason and
  the regret intensity are null, and an empty category or location is replaced by null.
\<close>

theorem onSubmit_regret_fields:
  assumes "onSubmit user d = Some r"
  shows "expenseData.is_regret r = expenseFormData.is_regret d
       \<and> (\<not> expenseData.is_regret r
            \<longrightarrow> expenseData.regret_reason r = None \<and> expenseData.regret_intensity r = None)
       \<and> (expenseFormData.category_id d = [] \<longrightarrow> expenseData.category_id r = None)
       \<and> (expenseFormData.location d = Some [] \<longrightarrow> expenseData.location r = None)
       \<and> expenseData.category_id r \<noteq> Some []
       \<and> expenseData.location r \<noteq> Some []"
proof -
  obtain u t where u: "user = Some u" and t: "expenseFormData.date d = TimeValue t"
    using assms by (auto simp: onSubmit_def split: option.splits jsdate.splits)
  have l: "or_null x \<noteq> Some []" for x
    by (cases x) simp_all
  show ?thesis
    using assms l by (auto simp: onSubmit_def u t split: if_splits)
qed

text \<open>The form as it opens carries an intensity of 3 and empty strings; the row carries nulls.\<close>

theorem onSubmit_regret_fields_witness:
  "onSubmit (Some ''u1'') form_ex
     = Some \<lparr> expenseData.user_id = ''u1'', amount = 50, description = ''tea'',
              category_id = None, payment_method = ''cash'', date = 1755216000000,
              location = None, tags = [], is_regret = False, regret_reason = None,
              regret_intensity = None \<rparr>
   \<and> \<not> expenseFormData.is_regret form_ex
   \<and> expenseFormData.regret_intensity form_ex = Some 3
   \<and> expenseFormData.category_id form_ex = []
   \<and> expenseFormData.location form_ex = Some []"
proof -
  let ?r = "\<lparr> expenseData.user_id = ''u1'', amount = 50, description = ''tea'',
              category_id = None, payment_method = ''cash'', date = 1755216000000,
              location = None, tags = [], is_regret = False, regret_reason = None,
              regret_intensity = None \<rparr>"
  have s: "onSubmit (Some ''u1'') form_ex = Some ?r"
    by (simp add: onSubmit_def form_ex_def)
  have f: "\<not> expenseFormData.is_regret form_ex" "expenseFormData.regret_intensity form_ex = Some 3"
    "expenseFormData.category_id form_ex = []" "expenseFormData.location form_ex = Some []"
    by (simp_all add: form_ex_def)
  show ?thesis
    using onSubmit_regret_fields [OF s] s f by simp
qed

end
